theory Spec2Isabelle
  imports Main "HOL-Library.Multiset"
begin

section \<open>Outcomes of effectful JavaScript code\<close>

text \<open>
  The modules verified here (CallbackQueue, ReactRef, ReactReconciler, ReactUpdates)
  mutate shared objects and call user code that may throw. A JavaScript exception does
  not undo the mutations made before it, so an outcome carries the state in both cases.
  The third outcome stands for a computation that was cut off by its fuel bound (only the
  drain loop of ReactUpdates can run forever).
\<close>

datatype error =
    InvariantViolation    \<comment> \<open>a failed \<^verbatim>\<open>invariant(...)\<close> call\<close>
  | TypeError             \<comment> \<open>calling a property of \<^verbatim>\<open>undefined\<close>\<close>
  | UserError nat         \<comment> \<open>an exception thrown by user code\<close>

datatype 's outcome = Return 's | Throw error 's | OutOfFuel

section \<open>CallbackQueue\<close>

text \<open>
  \<^verbatim>\<open>_callbacks\<close> and \<^verbatim>\<open>_contexts\<close> are each \<^verbatim>\<open>null\<close> (\<open>None\<close>) or an array.
  A slot of an array is \<open>None\<close> when it is a hole: \<^verbatim>\<open>rollback\<close> assigns
  \<^verbatim>\<open>length\<close>, and JavaScript extends an array with holes when the new length is larger.
\<close>

record ('cb, 'ctx, 'arg) CallbackQueue =
  callbacks :: "'cb option list option"
  contexts :: "'ctx option list option"
  arg :: "'arg"

definition CallbackQueue_new :: "'arg \<Rightarrow> ('cb, 'ctx, 'arg) CallbackQueue" where
  "CallbackQueue_new a = \<lparr>callbacks = None, contexts = None, arg = a\<rparr>"

text \<open>\<^verbatim>\<open>xs || []\<close>: an array (even an empty one) is truthy, \<^verbatim>\<open>null\<close> is not.\<close>

definition orEmpty :: "'a list option \<Rightarrow> 'a list" where
  "orEmpty xs = (case xs of None \<Rightarrow> [] | Some ys \<Rightarrow> ys)"

definition enqueue ::
  "'cb \<Rightarrow> 'ctx \<Rightarrow> ('cb, 'ctx, 'arg) CallbackQueue \<Rightarrow> ('cb, 'ctx, 'arg) CallbackQueue" where
  "enqueue cb ctx q =
     q\<lparr>callbacks := Some (orEmpty (callbacks q) @ [Some cb]),
       contexts := Some (orEmpty (contexts q) @ [Some ctx])\<rparr>"

definition checkpoint :: "('cb, 'ctx, 'arg) CallbackQueue \<Rightarrow> nat" where
  "checkpoint q = (case callbacks q of Some cs \<Rightarrow> length cs | None \<Rightarrow> 0)"

text \<open>\<^verbatim>\<open>xs.length = len\<close>: truncates, or extends with holes.\<close>

definition setLength :: "nat \<Rightarrow> 'a option list \<Rightarrow> 'a option list" where
  "setLength len xs = take len xs @ replicate (len - length xs) None"

definition rollback ::
  "nat \<Rightarrow> ('cb, 'ctx, 'arg) CallbackQueue \<Rightarrow> ('cb, 'ctx, 'arg) CallbackQueue" where
  "rollback len q =
     (case (callbacks q, contexts q) of
        (Some cs, Some xs) \<Rightarrow>
          q\<lparr>callbacks := Some (setLength len cs), contexts := Some (setLength len xs)\<rparr>
      | _ \<Rightarrow> q)"

definition reset :: "('cb, 'ctx, 'arg) CallbackQueue \<Rightarrow> ('cb, 'ctx, 'arg) CallbackQueue" where
  "reset q = q\<lparr>callbacks := None, contexts := None\<rparr>"

definition destructor :: "('cb, 'ctx, 'arg) CallbackQueue \<Rightarrow> ('cb, 'ctx, 'arg) CallbackQueue" where
  "destructor q = reset q"

text \<open>
  A callback is user code. It runs in a world that holds the queue itself next to the
  rest of the program state \<open>'u\<close>, so it may enqueue on, reset or roll back the very queue
  that is notifying it. \<open>call cb ctx a\<close> is \<^verbatim>\<open>cb.call(ctx, a)\<close>; the context of a hole
  is \<^verbatim>\<open>undefined\<close> (\<open>None\<close>). Every invocation is recorded in a log that the callbacks
  cannot touch.
\<close>

type_synonym ('cb, 'ctx, 'arg) invocation = "'cb \<times> 'ctx option \<times> 'arg"

type_synonym ('cb, 'ctx, 'arg, 'u) cqworld =
  "(('cb, 'ctx, 'arg) CallbackQueue \<times> 'u) \<times> ('cb, 'ctx, 'arg) invocation list"

type_synonym ('cb, 'ctx, 'arg, 'u) caller =
  "'cb \<Rightarrow> 'ctx option \<Rightarrow> 'arg \<Rightarrow> ('cb, 'ctx, 'arg) CallbackQueue \<times> 'u
     \<Rightarrow> (('cb, 'ctx, 'arg) CallbackQueue \<times> 'u) outcome"

text \<open>Reading \<^verbatim>\<open>xs[i]\<close>: a hole or an index out of range reads \<^verbatim>\<open>undefined\<close>.\<close>

definition slot :: "'a option list \<Rightarrow> nat \<Rightarrow> 'a option" where
  "slot xs i = (if i < length xs then xs ! i else None)"

text \<open>
  The loop \<^verbatim>\<open>for (var i = 0; i < callbacks.length; i++) callbacks[i].call(contexts[i], arg)\<close>
  over the two local arrays.
\<close>

function notifyLoop ::
  "('cb, 'ctx, 'arg, 'u) caller \<Rightarrow> 'arg \<Rightarrow> 'cb option list \<Rightarrow> 'ctx option list \<Rightarrow> nat
     \<Rightarrow> ('cb, 'ctx, 'arg, 'u) cqworld \<Rightarrow> ('cb, 'ctx, 'arg, 'u) cqworld outcome" where
  "notifyLoop call a cbs ctxs i (w, log) =
     (if i < length cbs then
        (case slot cbs i of
           None \<Rightarrow> Throw TypeError (w, log)
         | Some cb \<Rightarrow>
             (case call cb (slot ctxs i) a w of
                Return w' \<Rightarrow> notifyLoop call a cbs ctxs (Suc i) (w', log @ [(cb, slot ctxs i, a)])
              | Throw e w' \<Rightarrow> Throw e (w', log @ [(cb, slot ctxs i, a)])
              | OutOfFuel \<Rightarrow> OutOfFuel))
      else Return (w, log))"
  by pat_completeness auto
termination
  by (relation "measure (\<lambda>(call, a, cbs, ctxs, i, wl). length cbs - i)") auto

declare notifyLoop.simps [simp del]

definition notifyAll ::
  "('cb, 'ctx, 'arg, 'u) caller \<Rightarrow> ('cb, 'ctx, 'arg, 'u) cqworld
     \<Rightarrow> ('cb, 'ctx, 'arg, 'u) cqworld outcome" where
  "notifyAll call wl =
     (case wl of ((q, u), log) \<Rightarrow>
        (case (callbacks q, contexts q) of
           (Some cbs, Some ctxs) \<Rightarrow>
             if length cbs \<noteq> length ctxs then Throw InvariantViolation ((q, u), log)
             else notifyLoop call (arg q) cbs ctxs 0
                    ((q\<lparr>callbacks := None, contexts := None\<rparr>, u), log)
         | _ \<Rightarrow> Return ((q, u), log)))"

text \<open>
  The class invariant of the data model: both lists are \<^verbatim>\<open>null\<close>, or both are arrays of
  one length. The constructor establishes it and every method keeps it.
\<close>

definition paired :: "('cb, 'ctx, 'arg) CallbackQueue \<Rightarrow> bool" where
  "paired q =
     (case (callbacks q, contexts q) of
        (None, None) \<Rightarrow> True
      | (Some cs, Some xs) \<Rightarrow> length cs = length xs
      | _ \<Rightarrow> False)"

text \<open>
  The reference reading of the contract, in the words of the specification: every queued
  callback is invoked with its context and the shared argument, first in first out; an
  exception ends the notification.
\<close>

fun notifyFifo ::
  "('cb, 'ctx, 'arg, 'u) caller \<Rightarrow> 'arg \<Rightarrow> ('cb \<times> 'ctx) list
     \<Rightarrow> ('cb, 'ctx, 'arg, 'u) cqworld \<Rightarrow> ('cb, 'ctx, 'arg, 'u) cqworld outcome" where
  "notifyFifo call a [] wl = Return wl"
| "notifyFifo call a ((cb, ctx) # rest) (w, log) =
     (case call cb (Some ctx) a w of
        Return w' \<Rightarrow> notifyFifo call a rest (w', log @ [(cb, Some ctx, a)])
      | Throw e w' \<Rightarrow> Throw e (w', log @ [(cb, Some ctx, a)])
      | OutOfFuel \<Rightarrow> OutOfFuel)"

text \<open>\<open>enqueueAll items q\<close>: one \<^verbatim>\<open>enqueue\<close> call per item, in order.\<close>

definition enqueueAll ::
  "('cb \<times> 'ctx) list \<Rightarrow> ('cb, 'ctx, 'arg) CallbackQueue \<Rightarrow> ('cb, 'ctx, 'arg) CallbackQueue" where
  "enqueueAll items q = foldl (\<lambda>q' (cb, ctx). enqueue cb ctx q') q items"

section \<open>Sequencing\<close>

text \<open>\<open>andThen m k\<close>: run \<open>k\<close> on the state \<open>m\<close> returned; an exception or a cut-off of \<open>m\<close> skips \<open>k\<close>.\<close>

definition andThen :: "'s outcome \<Rightarrow> ('s \<Rightarrow> 's outcome) \<Rightarrow> 's outcome" where
  "andThen m k = (case m of Return s \<Rightarrow> k s | Throw e s \<Rightarrow> Throw e s | OutOfFuel \<Rightarrow> OutOfFuel)"

section \<open>Elements and internal instances\<close>

text \<open>
  The \<^verbatim>\<open>ref\<close> of an element is \<^verbatim>\<open>null\<close>, \<^verbatim>\<open>undefined\<close>, a string (a legacy, name-based ref)
  or a function (a callback ref). Functions are objects: \<^verbatim>\<open>===\<close> compares their identity,
  a number here; strings compare by value.
\<close>

datatype refv = RefNull | RefUndefined | RefString string | RefFunction nat

text \<open>
  An element is an object. \<open>ident\<close> is its identity, the fields are those that ReactRef
  and ReactReconciler read; \<open>owner\<close> is \<^verbatim>\<open>_owner\<close>, an instance (by identity) or \<^verbatim>\<open>null\<close>.
  Two values of this record are equal exactly when they stand for one object, since one
  object has one content: equality on nodes is JavaScript's \<^verbatim>\<open>===\<close>.
\<close>

record ReactElement =
  ident :: nat
  ref :: refv
  owner :: "nat option"

text \<open>\<^verbatim>\<open>ReactElement | string | number | null | false\<close>\<close>

datatype node =
    NullNode | FalseNode | StringNode string | NumberNode int | ElementNode ReactElement

text \<open>
  An internal instance (a ReactCompositeComponent, a ReactDOMComponent, ...), with the
  fields that the reconciler and the scheduler read and write. \<open>publicInstance\<close> is what
  \<^verbatim>\<open>getPublicInstance()\<close> returns, \<open>currentContext\<close> is \<^verbatim>\<open>_context\<close> and \<open>batchNumber\<close> is
  \<^verbatim>\<open>_updateBatchNumber\<close> (the name \<open>updateBatchNumber\<close> is kept for the counter of
  ReactUpdates). \<open>None\<close> stands for \<^verbatim>\<open>null\<close> in \<^verbatim>\<open>_updateBatchNumber\<close> and
  \<^verbatim>\<open>_pendingCallbacks\<close>; callbacks are named by numbers.
\<close>

record internalInstance =
  instanceId :: nat
  currentElement :: node
  currentContext :: nat
  publicInstance :: nat
  mountOrder :: int
  batchNumber :: "nat option"
  pendingCallbacks :: "nat list option"

section \<open>ReactRef\<close>

text \<open>
  Calls that leave the modules under verification: a callback ref invoked with the public
  instance or with \<^verbatim>\<open>null\<close>, and the two ReactOwner functions for legacy refs (instance,
  ref and owner as passed).
\<close>

datatype extcall =
    CallRef nat "nat option"
  | AddComponentAsRefTo nat refv "nat option"
  | RemoveComponentAsRefFrom nat refv "nat option"

text \<open>What the reconciler does that a test can observe, in order.\<close>

datatype effect =
    External extcall
  | NodeKindReceive nat node nat
  | MountReadyEnqueue nat

text \<open>The callbacks of the mount-ready queue: the reconciler's \<^verbatim>\<open>attachRefs\<close>, or another.\<close>

datatype readyCallback = AttachRefs | OtherCallback nat

text \<open>
  The state a reconcile step works on: the instance, the queue that
  \<^verbatim>\<open>transaction.getReactMountReady()\<close> returns, and the rest of the program state.
\<close>

record 'g reconcileState =
  internal :: internalInstance
  mountReady :: "(readyCallback, nat, unit) CallbackQueue"
  rest :: 'g

text \<open>
  The collaborators: \<open>external\<close> runs a call that leaves these modules on the rest of the
  state; \<open>nodeKindReceive\<close> is the \<^verbatim>\<open>receiveComponent\<close> method of the instance's node kind.
\<close>

record 'g collaborators =
  external :: "extcall \<Rightarrow> 'g \<Rightarrow> 'g outcome"
  nodeKindReceive :: "node \<Rightarrow> nat \<Rightarrow> 'g reconcileState \<Rightarrow> 'g reconcileState outcome"

type_synonym 'g rworld = "'g reconcileState \<times> effect list"

definition callExternal :: "'g collaborators \<Rightarrow> extcall \<Rightarrow> 'g rworld \<Rightarrow> 'g rworld outcome" where
  "callExternal X c w =
     (case w of (s, log) \<Rightarrow>
        (case external X c (rest s) of
           Return g \<Rightarrow> Return (s\<lparr>rest := g\<rparr>, log @ [External c])
         | Throw e g \<Rightarrow> Throw e (s\<lparr>rest := g\<rparr>, log @ [External c])
         | OutOfFuel \<Rightarrow> OutOfFuel))"

definition attachRef ::
  "'g collaborators \<Rightarrow> refv \<Rightarrow> internalInstance \<Rightarrow> nat option \<Rightarrow> 'g rworld \<Rightarrow> 'g rworld outcome" where
  "attachRef X r component own w =
     (case r of
        RefFunction f \<Rightarrow> callExternal X (CallRef f (Some (publicInstance component))) w
      | _ \<Rightarrow> callExternal X (AddComponentAsRefTo (instanceId component) r own) w)"

definition detachRef ::
  "'g collaborators \<Rightarrow> refv \<Rightarrow> internalInstance \<Rightarrow> nat option \<Rightarrow> 'g rworld \<Rightarrow> 'g rworld outcome" where
  "detachRef X r component own w =
     (case r of
        RefFunction f \<Rightarrow> callExternal X (CallRef f None) w
      | _ \<Rightarrow> callExternal X (RemoveComponentAsRefFrom (instanceId component) r own) w)"

text \<open>\<^verbatim>\<open>ref != null\<close>\<close>

definition notNullish :: "refv \<Rightarrow> bool" where
  "notNullish r = (r \<noteq> RefNull \<and> r \<noteq> RefUndefined)"

definition attachRefs ::
  "'g collaborators \<Rightarrow> internalInstance \<Rightarrow> node \<Rightarrow> 'g rworld \<Rightarrow> 'g rworld outcome" where
  "attachRefs X inst element w =
     (case element of
        ElementNode e \<Rightarrow> if notNullish (ref e) then attachRef X (ref e) inst (owner e) w else Return w
      | _ \<Rightarrow> Return w)"

definition detachRefs ::
  "'g collaborators \<Rightarrow> internalInstance \<Rightarrow> node \<Rightarrow> 'g rworld \<Rightarrow> 'g rworld outcome" where
  "detachRefs X inst element w =
     (case element of
        ElementNode e \<Rightarrow> if notNullish (ref e) then detachRef X (ref e) inst (owner e) w else Return w
      | _ \<Rightarrow> Return w)"

definition refOf :: "node \<Rightarrow> refv" where
  "refOf element = (case element of ElementNode e \<Rightarrow> ref e | _ \<Rightarrow> RefNull)"

definition ownerOf :: "node \<Rightarrow> nat option" where
  "ownerOf element = (case element of ElementNode e \<Rightarrow> owner e | _ \<Rightarrow> None)"

definition isString :: "refv \<Rightarrow> bool" where
  "isString r = (case r of RefString x \<Rightarrow> True | _ \<Rightarrow> False)"

definition shouldUpdateRefs :: "node \<Rightarrow> node \<Rightarrow> bool" where
  "shouldUpdateRefs prevElement nextElement =
     (let prevRef = refOf prevElement; prevOwner = ownerOf prevElement;
          nextRef = refOf nextElement; nextOwner = ownerOf nextElement
      in prevRef \<noteq> nextRef \<or> (isString nextRef \<and> nextOwner \<noteq> prevOwner))"

section \<open>ReactReconciler\<close>

text \<open>
  \<^verbatim>\<open>internalInstance._currentElement && internalInstance._currentElement.ref != null\<close>:
  \<^verbatim>\<open>null\<close>, \<^verbatim>\<open>false\<close>, the empty string and zero are falsy, and a string or a number has
  no \<^verbatim>\<open>ref\<close> property.
\<close>

definition hasRef :: "node \<Rightarrow> bool" where
  "hasRef element = (case element of ElementNode e \<Rightarrow> notNullish (ref e) | _ \<Rightarrow> False)"

definition runNodeKindReceive ::
  "'g collaborators \<Rightarrow> node \<Rightarrow> nat \<Rightarrow> 'g rworld \<Rightarrow> 'g rworld outcome" where
  "runNodeKindReceive X nextElement ctx w =
     (case w of (s, log) \<Rightarrow>
        (let log' = log @ [NodeKindReceive (instanceId (internal s)) nextElement ctx] in
         case nodeKindReceive X nextElement ctx s of
           Return s' \<Rightarrow> Return (s', log')
         | Throw e s' \<Rightarrow> Throw e (s', log')
         | OutOfFuel \<Rightarrow> OutOfFuel))"

definition enqueueAttachRefs :: "'g rworld \<Rightarrow> 'g rworld outcome" where
  "enqueueAttachRefs w =
     (case w of (s, log) \<Rightarrow>
        Return (s\<lparr>mountReady := enqueue AttachRefs (instanceId (internal s)) (mountReady s)\<rparr>,
                log @ [MountReadyEnqueue (instanceId (internal s))]))"

definition receiveComponent ::
  "'g collaborators \<Rightarrow> node \<Rightarrow> nat \<Rightarrow> 'g rworld \<Rightarrow> 'g rworld outcome" where
  "receiveComponent X nextElement ctx w =
     (let prevElement = currentElement (internal (fst w)) in
      if nextElement = prevElement \<and> ctx = currentContext (internal (fst w)) then Return w
      else
        let refsChanged = shouldUpdateRefs prevElement nextElement in
        andThen (if refsChanged then detachRefs X (internal (fst w)) prevElement w else Return w)
          (\<lambda>w1. andThen (runNodeKindReceive X nextElement ctx w1)
             (\<lambda>w2. if refsChanged \<and> hasRef (currentElement (internal (fst w2)))
                    then enqueueAttachRefs w2 else Return w2)))"

definition unmountComponent ::
  "'g collaborators \<Rightarrow> ('g reconcileState \<Rightarrow> 'g reconcileState outcome) \<Rightarrow> 'g rworld
     \<Rightarrow> 'g rworld outcome" where
  "unmountComponent X nodeKindUnmount w =
     andThen (detachRefs X (internal (fst w)) (currentElement (internal (fst w))) w)
       (\<lambda>w1. case nodeKindUnmount (fst w1) of
                Return s' \<Rightarrow> Return (s', snd w1)
              | Throw e s' \<Rightarrow> Throw e (s', snd w1)
              | OutOfFuel \<Rightarrow> OutOfFuel)"


text \<open>
  A sample caller for concrete runs: callback 1 enqueues callback 2 on the queue that is
  notifying it, every other callback does nothing.
\<close>

definition demoCall :: "(nat, string, nat, unit) caller" where
  "demoCall cb ctx a w =
     (case w of (q, u) \<Rightarrow> if cb = 1 then Return (enqueue 2 ''late'' q, u) else Return (q, u))"

text \<open>
  What \<^verbatim>\<open>ReactRef.detachRefs(instance, element)\<close> is seen to do: nothing when the element
  has no ref, else one call, of the callback ref with \<^verbatim>\<open>null\<close> or of
  \<^verbatim>\<open>ReactOwner.removeComponentAsRefFrom\<close>.
\<close>

definition detachEffects :: "internalInstance \<Rightarrow> node \<Rightarrow> effect list" where
  "detachEffects inst element =
     (case element of
        ElementNode e \<Rightarrow>
          if notNullish (ref e) then
            [External (case ref e of
                         RefFunction f \<Rightarrow> CallRef f None
                       | r \<Rightarrow> RemoveComponentAsRefFrom (instanceId inst) r (owner e))]
          else []
      | _ \<Rightarrow> [])"

text \<open>
  Sample collaborators for concrete runs: the external calls return at once, and the node
  kind stores the element and the context it receives, as the node kinds of React do.
\<close>

definition demoCollaborators :: "unit collaborators" where
  "demoCollaborators =
     \<lparr>external = (\<lambda>c g. Return g),
      nodeKindReceive = (\<lambda>nextElement ctx s.
         Return (s\<lparr>internal := (internal s)\<lparr>currentElement := nextElement, currentContext := ctx\<rparr>\<rparr>))\<rparr>"

definition demoInstance :: "node \<Rightarrow> internalInstance" where
  "demoInstance element =
     \<lparr>instanceId = 1, currentElement = element, currentContext = 0, publicInstance = 11,
      mountOrder = 1, batchNumber = None, pendingCallbacks = None\<rparr>"

definition demoState :: "node \<Rightarrow> unit reconcileState" where
  "demoState element =
     \<lparr>internal = demoInstance element, mountReady = CallbackQueue_new (), rest = ()\<rparr>"

text \<open>Sample elements: with a name ref, without a ref, and with a callback ref.\<close>

definition namedElement :: node where
  "namedElement = ElementNode \<lparr>ident = 5, ref = RefString ''a'', owner = Some 2\<rparr>"

definition bareElement :: node where
  "bareElement = ElementNode \<lparr>ident = 6, ref = RefNull, owner = Some 2\<rparr>"

definition callbackElement :: node where
  "callbackElement = ElementNode \<lparr>ident = 7, ref = RefFunction 3, owner = Some 2\<rparr>"

section \<open>Transaction\<close>

text \<open>
  Modelled from the spec: \<^verbatim>\<open>Transaction.perform\<close> and its wrappers (Transaction.js is not
  under src/). A wrapper is a pair of hooks. \<^verbatim>\<open>perform\<close> runs every \<^verbatim>\<open>initialize\<close> in
  registration order, then the method, then the \<^verbatim>\<open>close\<close> of every wrapper that initialized,
  in the same order. When an \<^verbatim>\<open>initialize\<close> throws, no further wrapper initializes and the
  method does not run, and the wrappers that did initialize are still closed. When the
  method or a \<^verbatim>\<open>close\<close> throws, the remaining \<^verbatim>\<open>close\<close> hooks still run. The first error
  met is the one thrown to the caller, after all closes have been attempted.
\<close>

record 's wrapper =
  initialize :: "'s \<Rightarrow> 's outcome"
  close :: "'s \<Rightarrow> 's outcome"

text \<open>The number of wrappers that initialized, and the outcome of the last hook run.\<close>

fun initializeAll :: "'s wrapper list \<Rightarrow> 's \<Rightarrow> nat \<times> 's outcome" where
  "initializeAll [] s = (0, Return s)"
| "initializeAll (w # ws) s =
     (case initialize w s of
        Return s' \<Rightarrow> (case initializeAll ws s' of (k, r) \<Rightarrow> (Suc k, r))
      | Throw e s' \<Rightarrow> (0, Throw e s')
      | OutOfFuel \<Rightarrow> (0, OutOfFuel))"

definition firstError :: "error option \<Rightarrow> error \<Rightarrow> error option" where
  "firstError pending e = (case pending of None \<Rightarrow> Some e | Some e0 \<Rightarrow> Some e0)"

fun closeAll :: "'s wrapper list \<Rightarrow> error option \<Rightarrow> 's \<Rightarrow> 's outcome" where
  "closeAll [] pending s = (case pending of None \<Rightarrow> Return s | Some e \<Rightarrow> Throw e s)"
| "closeAll (w # ws) pending s =
     (case close w s of
        Return s' \<Rightarrow> closeAll ws pending s'
      | Throw e s' \<Rightarrow> closeAll ws (firstError pending e) s'
      | OutOfFuel \<Rightarrow> OutOfFuel)"

definition perform :: "'s wrapper list \<Rightarrow> ('s \<Rightarrow> 's outcome) \<Rightarrow> 's \<Rightarrow> 's outcome" where
  "perform ws method s =
     (case initializeAll ws s of
        (k, Return s1) \<Rightarrow>
          (case method s1 of
             Return s2 \<Rightarrow> closeAll ws None s2
           | Throw e s2 \<Rightarrow> closeAll ws (Some e) s2
           | OutOfFuel \<Rightarrow> OutOfFuel)
      | (k, Throw e s1) \<Rightarrow> closeAll (take k ws) (Some e) s1
      | (k, OutOfFuel) \<Rightarrow> OutOfFuel)"

text \<open>
  To tell which hooks ran, a hook can be observed: it then works on the state paired with
  a log, and adds its event to the log when it is called.
\<close>

datatype txEvent = InitializeCalled nat | MethodCalled | CloseCalled nat

definition observe ::
  "txEvent \<Rightarrow> ('s \<Rightarrow> 's outcome) \<Rightarrow> 's \<times> txEvent list \<Rightarrow> ('s \<times> txEvent list) outcome" where
  "observe ev hook w =
     (case w of (s, log) \<Rightarrow>
        (case hook s of
           Return s' \<Rightarrow> Return (s', log @ [ev])
         | Throw e s' \<Rightarrow> Throw e (s', log @ [ev])
         | OutOfFuel \<Rightarrow> OutOfFuel))"

definition observed :: "nat \<Rightarrow> 's wrapper \<Rightarrow> ('s \<times> txEvent list) wrapper" where
  "observed i w =
     \<lparr>initialize = observe (InitializeCalled i) (initialize w),
      close = observe (CloseCalled i) (close w)\<rparr>"

text \<open>\<open>endsIn r s\<close>: the hook returned or threw, and left the state \<open>s\<close>.\<close>

definition endsIn :: "'s outcome \<Rightarrow> 's \<Rightarrow> bool" where
  "endsIn r s = (case r of Return s' \<Rightarrow> s' = s | Throw e s' \<Rightarrow> s' = s | OutOfFuel \<Rightarrow> False)"

definition thrown :: "'s outcome \<Rightarrow> error option" where
  "thrown r = (case r of Throw e s \<Rightarrow> Some e | _ \<Rightarrow> None)"

text \<open>
  Sample wrappers for concrete runs: each hook appends its number to the state, a list,
  and throws when told to.
\<close>

definition demoWrapper :: "nat \<Rightarrow> bool \<Rightarrow> bool \<Rightarrow> nat list wrapper" where
  "demoWrapper i initThrows closeThrows =
     \<lparr>initialize = (\<lambda>s. if initThrows then Throw (UserError (10 + i)) (s @ [10 + i])
                         else Return (s @ [10 + i])),
      close = (\<lambda>s. if closeThrows then Throw (UserError (20 + i)) (s @ [20 + i])
                    else Return (s @ [20 + i]))\<rparr>"

section \<open>PooledClass\<close>

text \<open>
  Modelled from the spec: the pool of a reusable type (PooledClass.js is not under src/).
  \<^verbatim>\<open>getPooled\<close> pops a retired instance from the free list, or constructs one when the list
  is empty; \<^verbatim>\<open>release\<close> calls the reset hook of the instance (written at the call sites
  below, since it differs by type) and pushes the instance back. The two counters record
  how often each was called.
\<close>

record pool =
  retired :: nat
  acquired :: nat
  released :: nat

definition getPooled :: "pool \<Rightarrow> pool" where
  "getPooled p = p\<lparr>retired := retired p - 1, acquired := Suc (acquired p)\<rparr>"

definition release :: "pool \<Rightarrow> pool" where
  "release p = p\<lparr>retired := Suc (retired p), released := Suc (released p)\<rparr>"

section \<open>ReactUpdates\<close>

text \<open>
  What a run of the scheduler is seen to do, in order. Each event is recorded by the
  function that was called: \<^verbatim>\<open>enqueueUpdate\<close> pushed an instance (\<open>True\<close> when it also tagged
  it, its \<^verbatim>\<open>_updateBatchNumber\<close> having been \<^verbatim>\<open>null\<close>; the number is the batch number the
  instance carries after the call); \<^verbatim>\<open>ReactReconciler.performUpdateIfNecessary\<close> was called on
  an instance with a batch number; the \<^verbatim>\<open>performUpdateIfNecessary\<close> of a node kind was called
  on its instance while the counter \<^verbatim>\<open>updateBatchNumber\<close> stood at the number; a callback of
  the queue of a flush transaction was invoked with a context; a callback of the \<^verbatim>\<open>asap\<close>
  queue was invoked.
\<close>

datatype event =
    Enqueued nat bool nat
  | Performed nat nat
  | Delegated nat nat
  | Notified nat "nat option"
  | AsapNotified nat "nat option"

text \<open>
  The module state of ReactUpdates, with the instances it reaches (by identity), whether
  \<^verbatim>\<open>ReactUpdates.ReactReconcileTransaction\<close> and \<^verbatim>\<open>batchingStrategy\<close> have been injected (each
  is \<^verbatim>\<open>null\<close> before), the \<^verbatim>\<open>isBatchingUpdates\<close> flag of the batching strategy, the pools of
  the three pooled types it uses, and the trace.
\<close>

record scheduler =
  dirtyComponents :: "nat list"
  updateBatchNumber :: nat
  asapCallbackQueue :: "(nat, nat, unit) CallbackQueue"
  asapEnqueued :: bool
  reconcileTransactionInjected :: bool
  batchingStrategyInjected :: bool
  isBatchingUpdates :: bool
  instances :: "nat \<Rightarrow> internalInstance"
  flushTransactionPool :: pool
  callbackQueuePool :: pool
  reconcileTransactionPool :: pool
  trace :: "event list"

text \<open>
  User code reaches the scheduler through these calls: \<^verbatim>\<open>enqueueUpdate\<close> of an instance
  (what \<^verbatim>\<open>setState\<close> and \<^verbatim>\<open>forceUpdate\<close> end in), \<^verbatim>\<open>asap\<close> of a callback with a context,
  adding a callback to the \<^verbatim>\<open>_pendingCallbacks\<close> of an instance, and throwing.
\<close>

datatype userCall = EnqueueUpdate nat | Asap nat nat | AddPendingCallback nat nat | Raise nat

text \<open>
  The collaborators of the scheduler, which are injected or are user code. Each may depend
  on the state it is called in. \<open>strategyEnqueue c\<close> is
  \<^verbatim>\<open>batchingStrategy.batchedUpdates(enqueueUpdate, c)\<close>; \<open>nodeKind c\<close> is the user code
  (render, lifecycle methods) that the node kind of instance \<open>c\<close> runs when it updates;
  \<open>hostInitialize\<close> and \<open>hostClose\<close> are the hooks of the reconcile transaction of the host.
\<close>

record program =
  strategyEnqueue :: "nat \<Rightarrow> scheduler \<Rightarrow> scheduler outcome"
  nodeKind :: "nat \<Rightarrow> scheduler \<Rightarrow> userCall list"
  callbackCode :: "nat \<Rightarrow> nat option \<Rightarrow> scheduler \<Rightarrow> userCall list"
  hostInitialize :: "scheduler \<Rightarrow> userCall list"
  hostClose :: "scheduler \<Rightarrow> userCall list"

definition logEvent :: "event \<Rightarrow> scheduler \<Rightarrow> scheduler" where
  "logEvent ev s = s\<lparr>trace := trace s @ [ev]\<rparr>"

definition batchNumberOf :: "scheduler \<Rightarrow> nat \<Rightarrow> nat option" where
  "batchNumberOf s c = batchNumber (instances s c)"

definition setBatchNumber :: "nat \<Rightarrow> nat option \<Rightarrow> scheduler \<Rightarrow> scheduler" where
  "setBatchNumber c b s = s\<lparr>instances := (instances s)(c := (instances s c)\<lparr>batchNumber := b\<rparr>)\<rparr>"

definition setPendingCallbacks :: "nat \<Rightarrow> nat list option \<Rightarrow> scheduler \<Rightarrow> scheduler" where
  "setPendingCallbacks c cbs s =
     s\<lparr>instances := (instances s)(c := (instances s c)\<lparr>pendingCallbacks := cbs\<rparr>)\<rparr>"

text \<open>\<^verbatim>\<open>ReactUpdates.ReactReconcileTransaction && batchingStrategy\<close>\<close>

definition injected :: "scheduler \<Rightarrow> bool" where
  "injected s \<longleftrightarrow> reconcileTransactionInjected s \<and> batchingStrategyInjected s"

definition ensureInjected :: "scheduler \<Rightarrow> scheduler outcome" where
  "ensureInjected s = (if injected s then Return s else Throw InvariantViolation s)"

definition enqueueUpdate :: "program \<Rightarrow> nat \<Rightarrow> scheduler \<Rightarrow> scheduler outcome" where
  "enqueueUpdate P component s =
     andThen (ensureInjected s)
       (\<lambda>s. if \<not> isBatchingUpdates s then strategyEnqueue P component s
            else
              let s1 = s\<lparr>dirtyComponents := dirtyComponents s @ [component]\<rparr> in
              case batchNumberOf s1 component of
                None \<Rightarrow>
                  Return (logEvent (Enqueued component True (updateBatchNumber s1 + 1))
                    (setBatchNumber component (Some (updateBatchNumber s1 + 1)) s1))
              | Some b \<Rightarrow> Return (logEvent (Enqueued component False b) s1))"

text \<open>
  \<^verbatim>\<open>asap\<close> does not call \<^verbatim>\<open>ensureInjected\<close> and reads the batching strategy only: without
  one, reading \<^verbatim>\<open>batchingStrategy.isBatchingUpdates\<close> is a TypeError.
\<close>

definition asap :: "nat \<Rightarrow> nat \<Rightarrow> scheduler \<Rightarrow> scheduler outcome" where
  "asap callback ctx s =
     (if \<not> batchingStrategyInjected s then Throw TypeError s
      else if \<not> isBatchingUpdates s then Throw InvariantViolation s
      else Return (s\<lparr>asapCallbackQueue := enqueue callback ctx (asapCallbackQueue s),
                     asapEnqueued := True\<rparr>))"

definition runUserCall :: "program \<Rightarrow> userCall \<Rightarrow> scheduler \<Rightarrow> scheduler outcome" where
  "runUserCall P u s =
     (case u of
        EnqueueUpdate c \<Rightarrow> enqueueUpdate P c s
      | Asap cb ctx \<Rightarrow> asap cb ctx s
      | AddPendingCallback c cb \<Rightarrow>
          Return (setPendingCallbacks c
                    (Some (orEmpty (pendingCallbacks (instances s c)) @ [cb])) s)
      | Raise e \<Rightarrow> Throw (UserError e) s)"

fun runScript :: "program \<Rightarrow> userCall list \<Rightarrow> scheduler \<Rightarrow> scheduler outcome" where
  "runScript P [] s = Return s"
| "runScript P (u # us) s = andThen (runUserCall P u s) (runScript P us)"

text \<open>
  Modelled from the spec: the \<^verbatim>\<open>performUpdateIfNecessary(transaction)\<close> of a node kind (no
  node kind is under src/). It brings its instance up to date: the instance is then no
  longer scheduled, its \<^verbatim>\<open>_updateBatchNumber\<close> is unset (the comment in
  \<^verbatim>\<open>runBatchedUpdates\<close> relies on this: an instance that has already updated is skipped by
  checking the batch counter), and user code runs. The event records the call.
\<close>

definition nodeKindPerformUpdate :: "program \<Rightarrow> nat \<Rightarrow> scheduler \<Rightarrow> scheduler outcome" where
  "nodeKindPerformUpdate P c s =
     (let s0 = logEvent (Delegated c (updateBatchNumber s)) s
      in runScript P (nodeKind P c s0) (setBatchNumber c None s0))"

text \<open>
  \<^verbatim>\<open>ReactReconciler.performUpdateIfNecessary(internalInstance, transaction, updateBatchNumber)\<close>.
  The warning about an unexpected batch number has no effect on the run. The event
  records the call.
\<close>

definition performUpdateIfNecessary ::
  "program \<Rightarrow> nat \<Rightarrow> nat \<Rightarrow> scheduler \<Rightarrow> scheduler outcome" where
  "performUpdateIfNecessary P c batch s =
     (let s0 = logEvent (Performed c batch) s
      in if batchNumberOf s0 c \<noteq> Some batch then Return s0
         else nodeKindPerformUpdate P c s0)"

text \<open>
  A \<^verbatim>\<open>ReactUpdatesFlushTransaction\<close>. Its reconcile transaction belongs to the host and is
  seen through the two host hooks only.
\<close>

record flushTransaction =
  dirtyComponentsLength :: "nat option"
  callbackQueue :: "(nat, nat, unit) CallbackQueue"

type_synonym flushState = "scheduler \<times> flushTransaction"

definition onScheduler ::
  "(scheduler \<Rightarrow> scheduler outcome) \<Rightarrow> flushState \<Rightarrow> flushState outcome" where
  "onScheduler f w =
     (case w of (s, t) \<Rightarrow>
        (case f s of
           Return s' \<Rightarrow> Return (s', t)
         | Throw e s' \<Rightarrow> Throw e (s', t)
         | OutOfFuel \<Rightarrow> OutOfFuel))"

text \<open>\<^verbatim>\<open>dirtyComponents.sort(mountOrderComparator)\<close>: ascending \<^verbatim>\<open>_mountOrder\<close>, stable.\<close>

definition sortByMountOrder :: "scheduler \<Rightarrow> scheduler" where
  "sortByMountOrder s =
     s\<lparr>dirtyComponents := sort_key (\<lambda>c. mountOrder (instances s c)) (dirtyComponents s)\<rparr>"

text \<open>
  The inner loop of \<^verbatim>\<open>runBatchedUpdates\<close>: each stashed callback is enqueued on the queue
  of the transaction with \<^verbatim>\<open>component.getPublicInstance()\<close> as its context.
\<close>

definition requeueCallbacks :: "nat list option \<Rightarrow> nat \<Rightarrow> flushState \<Rightarrow> flushState" where
  "requeueCallbacks stashed c w =
     (case w of (s, t) \<Rightarrow>
        (case stashed of
           None \<Rightarrow> (s, t)
         | Some cbs \<Rightarrow>
             (s,
              t\<lparr>callbackQueue :=
                  enqueueAll (map (\<lambda>cb. (cb, publicInstance (instances s c))) cbs)
                    (callbackQueue t)\<rparr>)))"

text \<open>
  The outer loop of \<^verbatim>\<open>runBatchedUpdates\<close>, \<^verbatim>\<open>for (var i = 0; i < len; i++)\<close>. It reads
  \<^verbatim>\<open>dirtyComponents[i]\<close> from the live array; past its end that is \<^verbatim>\<open>undefined\<close>, and
  reading \<^verbatim>\<open>_pendingCallbacks\<close> of it a TypeError. The feature flag
  \<^verbatim>\<open>logTopLevelRenders\<close> is off.
\<close>

function updateLoop :: "program \<Rightarrow> nat \<Rightarrow> nat \<Rightarrow> flushState \<Rightarrow> flushState outcome" where
  "updateLoop P len i (s, t) =
     (if i < len then
        (if i < length (dirtyComponents s) then
           (let c = dirtyComponents s ! i;
                stashed = pendingCallbacks (instances s c);
                s1 = setPendingCallbacks c None s
            in case performUpdateIfNecessary P c (updateBatchNumber s1) s1 of
                 Return s2 \<Rightarrow> updateLoop P len (Suc i) (requeueCallbacks stashed c (s2, t))
               | Throw e s2 \<Rightarrow> Throw e (s2, t)
               | OutOfFuel \<Rightarrow> OutOfFuel)
         else Throw TypeError (s, t))
      else Return (s, t))"
  by pat_completeness auto

termination
  by (relation "measure (\<lambda>(P, len, i, w). len - i)") auto

declare updateLoop.simps [simp del]

definition runBatchedUpdates :: "program \<Rightarrow> flushState \<Rightarrow> flushState outcome" where
  "runBatchedUpdates P w =
     (case w of (s, t) \<Rightarrow>
        (case dirtyComponentsLength t of
           None \<Rightarrow> Throw InvariantViolation (s, t)
         | Some len \<Rightarrow>
             if len \<noteq> length (dirtyComponents s) then Throw InvariantViolation (s, t)
             else updateLoop P len 0
                    ((sortByMountOrder s)\<lparr>updateBatchNumber := updateBatchNumber s + 1\<rparr>, t)))"

text \<open>
  Calling a callback of a queue: user code, run on the scheduler. \<open>mk\<close> makes the event
  that records the call.
\<close>

definition callCallback ::
  "program \<Rightarrow> (nat \<Rightarrow> nat option \<Rightarrow> event) \<Rightarrow> (nat, nat, unit, scheduler) caller" where
  "callCallback P mk cb ctx a w =
     (case w of (q, s) \<Rightarrow>
        (case runScript P (callbackCode P cb ctx (logEvent (mk cb ctx) s))
                (logEvent (mk cb ctx) s) of
           Return s' \<Rightarrow> Return (q, s')
         | Throw e s' \<Rightarrow> Throw e (q, s')
         | OutOfFuel \<Rightarrow> OutOfFuel))"

text \<open>\<^verbatim>\<open>queue.notifyAll()\<close> for a queue held outside the module state.\<close>

definition notifyQueue ::
  "program \<Rightarrow> (nat \<Rightarrow> nat option \<Rightarrow> event) \<Rightarrow> (nat, nat, unit) CallbackQueue \<Rightarrow> scheduler
     \<Rightarrow> ((nat, nat, unit) CallbackQueue \<times> scheduler) outcome" where
  "notifyQueue P mk q s =
     (case notifyAll (callCallback P mk) ((q, s), []) of
        Return (w, log) \<Rightarrow> Return w
      | Throw e (w, log) \<Rightarrow> Throw e w
      | OutOfFuel \<Rightarrow> OutOfFuel)"

text \<open>\<^verbatim>\<open>dirtyComponents.splice(0, n)\<close>; \<^verbatim>\<open>null\<close> counts as zero.\<close>

definition spliceFront :: "nat option \<Rightarrow> 'a list \<Rightarrow> 'a list" where
  "spliceFront n xs = drop (case n of None \<Rightarrow> 0 | Some k \<Rightarrow> k) xs"

text \<open>
  The two wrappers of the flush transaction. The close hook of \<open>NESTED_UPDATES\<close> calls
  \<^verbatim>\<open>flushBatchedUpdates\<close>, which is passed in here and defined below.
\<close>

definition NESTED_UPDATES :: "(scheduler \<Rightarrow> scheduler outcome) \<Rightarrow> flushState wrapper" where
  "NESTED_UPDATES flush =
     \<lparr>initialize = (\<lambda>(s, t). Return (s, t\<lparr>dirtyComponentsLength := Some (length (dirtyComponents s))\<rparr>)),
      close = (\<lambda>(s, t).
        if dirtyComponentsLength t \<noteq> Some (length (dirtyComponents s))
        then onScheduler flush
               (s\<lparr>dirtyComponents := spliceFront (dirtyComponentsLength t) (dirtyComponents s)\<rparr>, t)
        else Return (s\<lparr>dirtyComponents := []\<rparr>, t))\<rparr>"

definition UPDATE_QUEUEING :: "program \<Rightarrow> flushState wrapper" where
  "UPDATE_QUEUEING P =
     \<lparr>initialize = (\<lambda>(s, t). Return (s, t\<lparr>callbackQueue := reset (callbackQueue t)\<rparr>)),
      close = (\<lambda>(s, t).
        case notifyQueue P Notified (callbackQueue t) s of
          Return (q, s') \<Rightarrow> Return (s', t\<lparr>callbackQueue := q\<rparr>)
        | Throw e (q, s') \<Rightarrow> Throw e (s', t\<lparr>callbackQueue := q\<rparr>)
        | OutOfFuel \<Rightarrow> OutOfFuel)\<rparr>"

definition TRANSACTION_WRAPPERS ::
  "program \<Rightarrow> (scheduler \<Rightarrow> scheduler outcome) \<Rightarrow> flushState wrapper list" where
  "TRANSACTION_WRAPPERS P flush = [NESTED_UPDATES flush, UPDATE_QUEUEING P]"

text \<open>
  Modelled from the spec: the reconcile transaction of the host (not under src/), a
  transaction with hooks of its own that brackets the reconcile pass.
\<close>

definition hostWrapper :: "program \<Rightarrow> flushState wrapper" where
  "hostWrapper P =
     \<lparr>initialize = onScheduler (\<lambda>s. runScript P (hostInitialize P s) s),
      close = onScheduler (\<lambda>s. runScript P (hostClose P s) s)\<rparr>"

definition reconcilePerform ::
  "program \<Rightarrow> (flushState \<Rightarrow> flushState outcome) \<Rightarrow> flushState \<Rightarrow> flushState outcome" where
  "reconcilePerform P wrapped = perform [hostWrapper P] wrapped"

text \<open>
  \<^verbatim>\<open>ReactUpdatesFlushTransaction.perform\<close>: \<^verbatim>\<open>Transaction.perform\<close> with the wrappers of this
  transaction around the \<^verbatim>\<open>perform\<close> of the reconcile transaction.
\<close>

definition flushPerform ::
  "program \<Rightarrow> (scheduler \<Rightarrow> scheduler outcome) \<Rightarrow> flushState \<Rightarrow> flushState outcome" where
  "flushPerform P flush =
     perform (TRANSACTION_WRAPPERS P flush) (reconcilePerform P (runBatchedUpdates P))"

text \<open>
  \<^verbatim>\<open>ReactUpdatesFlushTransaction.getPooled()\<close> runs the constructor, which takes a callback
  queue and a reconcile transaction from their pools; \<^verbatim>\<open>release\<close> runs the destructor,
  which gives both back.
\<close>

definition getPooledFlushTransaction :: "scheduler \<Rightarrow> flushState" where
  "getPooledFlushTransaction s =
     (s\<lparr>flushTransactionPool := getPooled (flushTransactionPool s),
        callbackQueuePool := getPooled (callbackQueuePool s),
        reconcileTransactionPool := getPooled (reconcileTransactionPool s)\<rparr>,
      \<lparr>dirtyComponentsLength = None, callbackQueue = CallbackQueue_new ()\<rparr>)"

definition releaseFlushTransaction :: "flushState \<Rightarrow> scheduler" where
  "releaseFlushTransaction w =
     (case w of (s, t) \<Rightarrow>
        s\<lparr>callbackQueuePool := release (callbackQueuePool s),
          reconcileTransactionPool := release (reconcileTransactionPool s),
          flushTransactionPool := release (flushTransactionPool s)\<rparr>)"

text \<open>The first block of the loop body of \<^verbatim>\<open>flushBatchedUpdates\<close>.\<close>

definition flushPass ::
  "program \<Rightarrow> (scheduler \<Rightarrow> scheduler outcome) \<Rightarrow> scheduler \<Rightarrow> scheduler outcome" where
  "flushPass P flush s =
     (case flushPerform P flush (getPooledFlushTransaction s) of
        Return w \<Rightarrow> Return (releaseFlushTransaction w)
      | Throw e w \<Rightarrow> Throw e (fst w)
      | OutOfFuel \<Rightarrow> OutOfFuel)"

text \<open>The second block.\<close>

definition asapPass :: "program \<Rightarrow> scheduler \<Rightarrow> scheduler outcome" where
  "asapPass P s =
     (case notifyQueue P AsapNotified (asapCallbackQueue s)
             (s\<lparr>asapEnqueued := False, asapCallbackQueue := CallbackQueue_new (),
                callbackQueuePool := getPooled (callbackQueuePool s)\<rparr>) of
        Return (q, s') \<Rightarrow> Return (s'\<lparr>callbackQueuePool := release (callbackQueuePool s')\<rparr>)
      | Throw e (q, s') \<Rightarrow> Throw e s'
      | OutOfFuel \<Rightarrow> OutOfFuel)"

text \<open>
  \<^verbatim>\<open>flushBatchedUpdates\<close>. The loop need not end (an update may enqueue its own instance
  each time), so the function takes fuel: one unit for each turn of the loop, and the
  calls nested in a turn get what is left.
\<close>

primrec flushBatchedUpdates :: "nat \<Rightarrow> program \<Rightarrow> scheduler \<Rightarrow> scheduler outcome" where
  "flushBatchedUpdates 0 P s =
     (if dirtyComponents s \<noteq> [] \<or> asapEnqueued s then OutOfFuel else Return s)"
| "flushBatchedUpdates (Suc n) P s =
     (if dirtyComponents s \<noteq> [] \<or> asapEnqueued s then
        andThen (if dirtyComponents s \<noteq> [] then flushPass P (flushBatchedUpdates n P) s
                 else Return s)
          (\<lambda>s1. andThen (if asapEnqueued s1 then asapPass P s1 else Return s1)
                   (flushBatchedUpdates n P))
      else Return s)"

text \<open>
  Sample states and programs for concrete runs: instance \<open>c\<close> has mount order \<open>c\<close> and
  public instance \<open>100 + c\<close>; the state is inside a batching scope with nothing
  scheduled; the quiet program runs no user code.
\<close>

definition emptyPool :: pool where
  "emptyPool = \<lparr>retired = 0, acquired = 0, released = 0\<rparr>"

definition freshInstance :: "nat \<Rightarrow> internalInstance" where
  "freshInstance c =
     \<lparr>instanceId = c, currentElement = NullNode, currentContext = 0, publicInstance = 100 + c,
      mountOrder = int c, batchNumber = None, pendingCallbacks = None\<rparr>"

definition batchingState :: scheduler where
  "batchingState =
     \<lparr>dirtyComponents = [], updateBatchNumber = 0, asapCallbackQueue = CallbackQueue_new (),
      asapEnqueued = False, reconcileTransactionInjected = True,
      batchingStrategyInjected = True, isBatchingUpdates = True,
      instances = freshInstance, flushTransactionPool = emptyPool,
      callbackQueuePool = emptyPool, reconcileTransactionPool = emptyPool, trace = []\<rparr>"

definition quietProgram :: program where
  "quietProgram =
     \<lparr>strategyEnqueue = (\<lambda>c s. Return s),
      nodeKind = (\<lambda>c s. []),
      callbackCode = (\<lambda>cb ctx s. []),
      hostInitialize = (\<lambda>s. []), hostClose = (\<lambda>s. [])\<rparr>"

text \<open>
  A program with a cascade: when instance 1 updates it adds callback 7 to instance 2 and
  enqueues instance 2; callback 7 defers callback 8 with \<^verbatim>\<open>asap\<close>.
\<close>

definition cascadeProgram :: program where
  "cascadeProgram =
     quietProgram\<lparr>nodeKind := (\<lambda>c s. if c = 1 then [AddPendingCallback 2 7, EnqueueUpdate 2] else []),
       callbackCode := (\<lambda>cb ctx s. if cb = 7 then [Asap 8 0] else [])\<rparr>"

section \<open>Predicates and projections used in the statements\<close>

text \<open>
  \<open>post Q R r\<close>: an outcome that returned satisfies \<open>Q\<close>, one that threw satisfies \<open>R\<close>.
\<close>

definition post :: "('s \<Rightarrow> bool) \<Rightarrow> ('s \<Rightarrow> bool) \<Rightarrow> 's outcome \<Rightarrow> bool" where
  "post Q R r = (case r of Return s \<Rightarrow> Q s | Throw e s \<Rightarrow> R s | OutOfFuel \<Rightarrow> True)"

text \<open>The instances on which \<^verbatim>\<open>ReactReconciler.performUpdateIfNecessary\<close> was called, in order.\<close>

fun performedOf :: "event \<Rightarrow> nat list" where
  "performedOf (Performed c g) = [c]"
| "performedOf ev = []"

definition performed :: "event list \<Rightarrow> nat list" where
  "performed tr = concat (map performedOf tr)"

definition mountOrderOf :: "scheduler \<Rightarrow> nat \<Rightarrow> int" where
  "mountOrderOf s c = mountOrder (instances s c)"

text \<open>
  Inside a batching scope a user call leaves the entries of \<^verbatim>\<open>dirtyComponents\<close> in place
  (it can only append), does not touch the counter \<^verbatim>\<open>updateBatchNumber\<close> or a mount order,
  and calls no \<^verbatim>\<open>performUpdateIfNecessary\<close>.
\<close>

definition passFrame :: "nat \<Rightarrow> (nat \<Rightarrow> int) \<Rightarrow> nat list \<Rightarrow> nat list \<Rightarrow> scheduler \<Rightarrow> bool" where
  "passFrame g mo ds pf s \<longleftrightarrow>
     injected s \<and> isBatchingUpdates s \<and> updateBatchNumber s = g \<and> mountOrderOf s = mo \<and>
     take (length ds) (dirtyComponents s) = ds \<and> performed (trace s) = pf"

text \<open>
  A sample state: the instances 5, 2 and 9 were scheduled in this order in one batch.
\<close>

definition threeDirty :: scheduler where
  "threeDirty =
     batchingState\<lparr>dirtyComponents := [5, 2, 9],
       instances := (\<lambda>c. (freshInstance c)\<lparr>batchNumber := (if c \<in> {5, 2, 9} then Some 1 else None)\<rparr>)\<rparr>"

definition newFlushTransaction :: "nat option \<Rightarrow> flushTransaction" where
  "newFlushTransaction len = \<lparr>dirtyComponentsLength = len, callbackQueue = CallbackQueue_new ()\<rparr>"

text \<open>
  \<open>passStable P I\<close>: every step of a reconcile pass and of a notification keeps \<open>I\<close>: a user
  call, whether it returns or throws; the events that record a call; stashing the pending
  callbacks; what the node kind of an instance tagged with the current batch number does
  before it runs user code; sorting the array and counting the batch.
\<close>

definition passStable :: "program \<Rightarrow> (scheduler \<Rightarrow> bool) \<Rightarrow> bool" where
  "passStable P I \<longleftrightarrow>
     (\<forall>u s. I s \<longrightarrow> post I I (runUserCall P u s)) \<and>
     (\<forall>s c g. I s \<longrightarrow> I (logEvent (Performed c g) s)) \<and>
     (\<forall>s cb ctx. I s \<longrightarrow> I (logEvent (Notified cb ctx) s) \<and> I (logEvent (AsapNotified cb ctx) s)) \<and>
     (\<forall>s c. I s \<longrightarrow> I (setPendingCallbacks c None s)) \<and>
     (\<forall>s c. I s \<and> batchNumberOf s c = Some (updateBatchNumber s) \<longrightarrow>
        I (setBatchNumber c None (logEvent (Delegated c (updateBatchNumber s)) s))) \<and>
     (\<forall>s. I s \<longrightarrow> I ((sortByMountOrder s)\<lparr>updateBatchNumber := updateBatchNumber s + 1\<rparr>))"

text \<open>
  \<open>drainStable P I\<close>: moreover \<open>I\<close> does not depend on the array of dirty instances or on
  the pools, and is kept when the \<^verbatim>\<open>asap\<close> queue is swapped for an empty one.
\<close>

definition drainStable :: "program \<Rightarrow> (scheduler \<Rightarrow> bool) \<Rightarrow> bool" where
  "drainStable P I \<longleftrightarrow>
     passStable P I \<and>
     (\<forall>s d. I s \<longrightarrow> I (s\<lparr>dirtyComponents := d\<rparr>)) \<and>
     (\<forall>s a b c. I s \<longrightarrow> I (s\<lparr>flushTransactionPool := a, callbackQueuePool := b,
                                reconcileTransactionPool := c\<rparr>)) \<and>
     (\<forall>s p. I s \<longrightarrow> I (s\<lparr>asapEnqueued := False, asapCallbackQueue := CallbackQueue_new (),
                            callbackQueuePool := p\<rparr>)) \<and>
     (\<forall>s p. I s \<longrightarrow> I (s\<lparr>callbackQueuePool := p\<rparr>))"

text \<open>The delegations to node kinds: instance and batch number, in order.\<close>

fun delegationsOf :: "event \<Rightarrow> (nat \<times> nat) list" where
  "delegationsOf (Delegated c g) = [(c, g)]"
| "delegationsOf ev = []"

definition delegations :: "event list \<Rightarrow> (nat \<times> nat) list" where
  "delegations tr = concat (map delegationsOf tr)"

definition outcomeTrace :: "scheduler outcome \<Rightarrow> event list" where
  "outcomeTrace r = (case r of Return s \<Rightarrow> trace s | Throw e s \<Rightarrow> trace s | OutOfFuel \<Rightarrow> [])"

definition returned :: "'s outcome \<Rightarrow> bool" where
  "returned r = (case r of Return s \<Rightarrow> True | _ \<Rightarrow> False)"

text \<open>The instances of a pool that were acquired and not released.\<close>

definition outstanding :: "pool \<Rightarrow> int" where
  "outstanding p = int (acquired p) - int (released p)"

definition poolsOutstanding :: "scheduler \<Rightarrow> int \<times> int \<times> int" where
  "poolsOutstanding s =
     (outstanding (flushTransactionPool s), outstanding (callbackQueuePool s),
      outstanding (reconcileTransactionPool s))"

definition pooled :: "int \<times> int \<times> int \<Rightarrow> scheduler \<Rightarrow> bool" where
  "pooled b s \<longleftrightarrow> injected s \<and> isBatchingUpdates s \<and> poolsOutstanding s = b"

definition finalState :: "'s outcome \<Rightarrow> 's option" where
  "finalState r = (case r of Return s \<Rightarrow> Some s | Throw e s \<Rightarrow> Some s | OutOfFuel \<Rightarrow> None)"

text \<open>A program whose node kinds throw when they update.\<close>

definition throwingProgram :: program where
  "throwingProgram =
     quietProgram\<lparr>nodeKind := (\<lambda>c s. [Raise 1])\<rparr>"

text \<open>
  The events since a state: what was recorded between the state \<open>s\<close> and a later state
  \<open>s'\<close> of one run.
\<close>

definition eventsSince :: "scheduler \<Rightarrow> scheduler \<Rightarrow> event list" where
  "eventsSince s s' = drop (length (trace s)) (trace s')"

text \<open>
  The reference reading of the ordering contract, in the words of the specification: the
  instances of a list given beforehand are brought up to date one after the other, in the
  order of the list, and an exception ends the pass. One turn is what
  \<^verbatim>\<open>runBatchedUpdates\<close> does for one instance: it stashes the pending callbacks, calls
  \<^verbatim>\<open>ReactReconciler.performUpdateIfNecessary\<close> with the current batch number, and moves the
  stashed callbacks to the queue of the transaction.
\<close>

definition reconcileTurn :: "program \<Rightarrow> nat \<Rightarrow> flushState \<Rightarrow> flushState outcome" where
  "reconcileTurn P c w =
     (case w of (s, t) \<Rightarrow>
        (case performUpdateIfNecessary P c (updateBatchNumber s) (setPendingCallbacks c None s) of
           Return s2 \<Rightarrow> Return (requeueCallbacks (pendingCallbacks (instances s c)) c (s2, t))
         | Throw e s2 \<Rightarrow> Throw e (s2, t)
         | OutOfFuel \<Rightarrow> OutOfFuel))"

fun reconcileInOrder :: "program \<Rightarrow> nat list \<Rightarrow> flushState \<Rightarrow> flushState outcome" where
  "reconcileInOrder P [] w = Return w"
| "reconcileInOrder P (c # cs) w = andThen (reconcileTurn P c w) (reconcileInOrder P cs)"

text \<open>
  A sample program whose node kinds leave a mark in the state when they update: instance
  \<open>c\<close> defers callback \<open>c\<close> with \<^verbatim>\<open>asap\<close>.
\<close>

definition markingProgram :: program where
  "markingProgram = quietProgram\<lparr>nodeKind := (\<lambda>c s. [Asap c c])\<rparr>"

text \<open>
  The invariant behind the exactly-once guarantee, about the events from index \<open>k\<close> of the
  trace on, inside a batching scope: no instance has been updated by its node kind twice
  under one batch number, every such update is of a batch that has begun, and an instance
  updated in the current batch is no longer tagged with it.
\<close>

definition onePerBatch :: "nat \<Rightarrow> scheduler \<Rightarrow> bool" where
  "onePerBatch k s \<longleftrightarrow>
     injected s \<and> isBatchingUpdates s \<and> k \<le> length (trace s) \<and>
     distinct (delegations (drop k (trace s))) \<and>
     (\<forall>c g. (c, g) \<in> set (delegations (drop k (trace s))) \<longrightarrow>
        g \<le> updateBatchNumber s \<and> (g = updateBatchNumber s \<longrightarrow> batchNumberOf s c \<noteq> Some g))"

text \<open>
  Inside the pass of batch \<open>g\<close>, an instance \<open>c\<close> that is not tagged \<open>g\<close> stays so, and its
  node kind is not called under \<open>g\<close>.
\<close>

definition passedOver :: "nat \<Rightarrow> nat \<Rightarrow> nat \<Rightarrow> scheduler \<Rightarrow> bool" where
  "passedOver k c g s \<longleftrightarrow>
     injected s \<and> isBatchingUpdates s \<and> k \<le> length (trace s) \<and> updateBatchNumber s = g \<and>
     batchNumberOf s c \<noteq> Some g \<and> (c, g) \<notin> set (delegations (drop k (trace s)))"

text \<open>
  Duties. The pair \<open>(c, b)\<close> stands for: instance \<open>c\<close> is to be updated by its node kind in the
  pass of batch \<open>b\<close>. A duty arises when \<^verbatim>\<open>enqueueUpdate\<close> pushes an instance, with the batch
  number the instance then carries (for every push when \<open>every\<close> is set, else only for a
  push that tags the instance), and it is met when the node kind of \<open>c\<close> is called while
  the counter stands at \<open>b\<close>. \<open>duties every D tr\<close> are the duties open after the events
  \<open>tr\<close>, when \<open>D\<close> were open before.
\<close>

fun dutyStep :: "bool \<Rightarrow> (nat \<times> nat) set \<Rightarrow> event \<Rightarrow> (nat \<times> nat) set" where
  "dutyStep every D (Enqueued c fresh b) = (if fresh \<or> every then insert (c, b) D else D)"
| "dutyStep every D (Delegated c g) = D - {(c, g)}"
| "dutyStep every D ev = D"

definition duties :: "bool \<Rightarrow> (nat \<times> nat) set \<Rightarrow> event list \<Rightarrow> (nat \<times> nat) set" where
  "duties every D tr = foldl (dutyStep every) D tr"

text \<open>
  The instances scheduled for the next pass, with its batch number: those in
  \<^verbatim>\<open>dirtyComponents\<close> whose \<^verbatim>\<open>_updateBatchNumber\<close> is \<^verbatim>\<open>updateBatchNumber + 1\<close>.
\<close>

definition scheduled :: "scheduler \<Rightarrow> (nat \<times> nat) set" where
  "scheduled s =
     set (map (\<lambda>c. (c, updateBatchNumber s + 1))
            (filter (\<lambda>c. batchNumberOf s c = Some (updateBatchNumber s + 1)) (dirtyComponents s)))"

text \<open>
  A state between two passes is tidy when every instance that carries a batch number is
  scheduled for the next pass.
\<close>

definition tidy :: "scheduler \<Rightarrow> bool" where
  "tidy s \<longleftrightarrow> (\<forall>c b. batchNumberOf s c = Some b \<longrightarrow> (c, b) \<in> scheduled s)"

text \<open>
  Inside a pass over the sorted array \<open>ds\<close>, with the instances \<open>cs\<close> still to come: an
  instance waits when it carries the current batch number and is still to come, or
  carries the next batch number and stands in \<^verbatim>\<open>dirtyComponents\<close> behind the entries of the
  pass.
\<close>

definition waiting :: "nat list \<Rightarrow> nat list \<Rightarrow> scheduler \<Rightarrow> (nat \<times> nat) set" where
  "waiting ds cs s =
     {(c, b). batchNumberOf s c = Some b \<and>
        ((b = updateBatchNumber s \<and> c \<in> set cs) \<or>
         (b = updateBatchNumber s + 1 \<and> c \<in> set (drop (length ds) (dirtyComponents s))))}"

text \<open>
  The invariants of a drain inside a batching scope, about the events from index \<open>k\<close> of
  the trace on and the duties \<open>D\<close> open at that index: between two passes every open duty
  is scheduled for the next pass, and inside a pass every open duty waits. With \<open>every\<close>
  set, moreover every instance that carries a batch number is scheduled, or waits.
\<close>

definition drainDuties :: "bool \<Rightarrow> nat \<Rightarrow> (nat \<times> nat) set \<Rightarrow> scheduler \<Rightarrow> bool" where
  "drainDuties every k D s \<longleftrightarrow>
     injected s \<and> isBatchingUpdates s \<and> k \<le> length (trace s) \<and>
     duties every D (drop k (trace s)) \<subseteq> scheduled s \<and> (every \<longrightarrow> tidy s)"

definition passDuties ::
  "bool \<Rightarrow> nat \<Rightarrow> (nat \<times> nat) set \<Rightarrow> nat list \<Rightarrow> nat list \<Rightarrow> scheduler \<Rightarrow> bool" where
  "passDuties every k D ds cs s \<longleftrightarrow>
     injected s \<and> isBatchingUpdates s \<and> k \<le> length (trace s) \<and>
     take (length ds) (dirtyComponents s) = ds \<and>
     duties every D (drop k (trace s)) \<subseteq> waiting ds cs s \<and>
     (every \<longrightarrow> (\<forall>c b. batchNumberOf s c = Some b \<longrightarrow> (c, b) \<in> waiting ds cs s))"

text \<open>
  A program in which the update of instance 1 schedules instance 2.
\<close>

definition nudgeProgram :: program where
  "nudgeProgram = quietProgram\<lparr>nodeKind := (\<lambda>c s. if c = 1 then [EnqueueUpdate 2] else [])\<rparr>"

text \<open>
  The pending callbacks of an instance, each with the context it is to be called with:
  what \<^verbatim>\<open>getPublicInstance()\<close> returns.
\<close>

definition callbacksOf :: "scheduler \<Rightarrow> nat \<Rightarrow> (nat \<times> nat) list" where
  "callbacksOf s c =
     map (\<lambda>cb. (cb, publicInstance (instances s c))) (orEmpty (pendingCallbacks (instances s c)))"

text \<open>The events that record the calls of the callbacks \<open>items\<close> of a flush transaction.\<close>

definition notifications :: "(nat \<times> nat) list \<Rightarrow> event set" where
  "notifications items = set (map (\<lambda>(cb, ctx). Notified cb (Some ctx)) items)"

text \<open>
  Inside a batching scope user code does not change a public instance and does not take
  a pending callback away: the callbacks \<open>f c\<close> stay pending on \<open>c\<close>.
\<close>

definition keeps :: "(nat \<Rightarrow> nat) \<Rightarrow> (nat \<Rightarrow> (nat \<times> nat) list) \<Rightarrow> scheduler \<Rightarrow> bool" where
  "keeps pub f s \<longleftrightarrow>
     injected s \<and> isBatchingUpdates s \<and> (\<forall>c. publicInstance (instances s c) = pub c) \<and>
     (\<forall>c. set (f c) \<subseteq> set (callbacksOf s c))"

text \<open>
  Inside a pass with the instances \<open>cs\<close> still to come: each of the callbacks \<open>T\<close> is in the
  queue of the flush transaction, which holds what was enqueued on it since it was
  reset, or is still pending on an instance to come.
\<close>

definition collected :: "(nat \<times> nat) set \<Rightarrow> nat list \<Rightarrow> flushState \<Rightarrow> bool" where
  "collected T cs w \<longleftrightarrow>
     injected (fst w) \<and> isBatchingUpdates (fst w) \<and>
     (\<exists>items. callbackQueue (snd w) = enqueueAll items (CallbackQueue_new ()) \<and>
        (\<forall>x\<in>T. x \<in> set items \<or> (\<exists>c\<in>set cs. x \<in> set (callbacksOf (fst w) c))))"

text \<open>Inside a batching scope the events \<open>E\<close> are in the trace from index \<open>k\<close> on.\<close>

definition noted :: "nat \<Rightarrow> event set \<Rightarrow> scheduler \<Rightarrow> bool" where
  "noted k E s \<longleftrightarrow>
     injected s \<and> isBatchingUpdates s \<and> k \<le> length (trace s) \<and> E \<subseteq> set (drop k (trace s))"

text \<open>
  Inside a batching scope \<^verbatim>\<open>asapEnqueued\<close> is set whenever the \<^verbatim>\<open>asap\<close> queue holds a callback.
\<close>

definition asapReady :: "scheduler \<Rightarrow> bool" where
  "asapReady s \<longleftrightarrow>
     injected s \<and> isBatchingUpdates s \<and>
     (asapEnqueued s \<or> checkpoint (asapCallbackQueue s) = 0)"

text \<open>
  A state between two passes as the module leaves it while no flush throws: inside a
  batching scope, with \<^verbatim>\<open>asapEnqueued\<close> set whenever the \<^verbatim>\<open>asap\<close> queue holds a callback, and
  tidy.
\<close>

definition settled :: "scheduler \<Rightarrow> bool" where
  "settled s \<longleftrightarrow> asapReady s \<and> tidy s"

text \<open>
  A program in which the update of instance 1 throws in the pass of batch 1 and enqueues
  instance 9 in every other pass.
\<close>

definition staleProgram :: program where
  "staleProgram =
     quietProgram\<lparr>nodeKind := (\<lambda>c s. if c = 1
        then (if updateBatchNumber s = 1 then [Raise 7] else [EnqueueUpdate 9]) else [])\<rparr>"

text \<open>
  The state inside a batching scope after \<^verbatim>\<open>enqueueUpdate\<close> of instance 1, on which
  callback 4 is pending.
\<close>

definition cascadeStart :: scheduler where
  "cascadeStart =
     batchingState\<lparr>dirtyComponents := [1],
       instances := (\<lambda>c. if c = 1
          then (freshInstance 1)\<lparr>batchNumber := Some 1, pendingCallbacks := Some [4]\<rparr>
          else freshInstance c)\<rparr>"



section \<open>Properties of CallbackQueue\<close>

lemma slot_map_Some: "i < length xs \<Longrightarrow> slot (map Some xs) i = Some (xs ! i)"
  by (simp add: slot_def)

lemma notifyLoop_fifo:
  "length cs = length xs \<Longrightarrow>
   notifyLoop call a (map Some cs) (map Some xs) i wl = notifyFifo call a (drop i (zip cs xs)) wl"
proof (induction call a "map Some cs :: 'a option list" "map Some xs :: 'b option list" i wl
       rule: notifyLoop.induct)
  case (1 call a i w log)
  show ?case
  proof (cases "i < length cs")
    case False
    then show ?thesis using 1(2) by (subst notifyLoop.simps) simp
  next
    case True
    then have d: "drop i (zip cs xs) = (cs ! i, xs ! i) # drop (Suc i) (zip cs xs)"
      using 1(2) by (simp add: Cons_nth_drop_Suc [symmetric])
    show ?thesis
      using True 1(2) 1(1)[of "cs ! i"]
      by (subst notifyLoop.simps) (simp add: d slot_map_Some split: outcome.splits)
  qed
qed

lemma enqueueAll_snoc: "enqueueAll (items @ [(cb, ctx)]) q = enqueue cb ctx (enqueueAll items q)"
  by (simp add: enqueueAll_def)

lemma enqueueAll_fields:
  "callbacks (enqueueAll items q) =
     (if items = [] then callbacks q else Some (orEmpty (callbacks q) @ map (Some \<circ> fst) items)) \<and>
   contexts (enqueueAll items q) =
     (if items = [] then contexts q else Some (orEmpty (contexts q) @ map (Some \<circ> snd) items)) \<and>
   arg (enqueueAll items q) = arg q"
proof (induction items rule: rev_induct)
  case Nil
  then show ?case by (simp add: enqueueAll_def)
next
  case (snoc x items)
  then show ?case
    by (cases x) (auto simp: enqueueAll_snoc enqueue_def orEmpty_def)
qed

lemma notifyFifo_log:
  "\<forall>cb ctx w. \<exists>w'. call cb ctx a w = Return w' \<Longrightarrow>
   \<exists>w'. notifyFifo call a items (w, log) = Return (w', log @ map (\<lambda>(cb, ctx). (cb, Some ctx, a)) items)"
proof (induction items arbitrary: w log)
  case Nil
  then show ?case by simp
next
  case (Cons x items)
  obtain cb ctx where x: "x = (cb, ctx)" by (cases x)
  from Cons.prems obtain w1 where w1: "call cb (Some ctx) a w = Return w1" by blast
  from Cons.IH [OF Cons.prems, of w1 "log @ [(cb, Some ctx, a)]"]
  show ?case by (simp add: x w1)
qed

lemma notifyAll_enqueued:
  assumes "callbacks q = None" "contexts q = None"
  shows "notifyAll call ((enqueueAll items q, u), log) = notifyFifo call (arg q) items ((q, u), log)"
proof (cases "items = []")
  case True
  then show ?thesis using assms by (simp add: notifyAll_def enqueueAll_def)
next
  case False
  have z: "zip (map fst items) (map snd items) = items" by (simp add: zip_map_fst_snd)
  have r: "enqueueAll items q\<lparr>callbacks := None, contexts := None\<rparr> = q"
    using assms enqueueAll_fields [of items q] by (intro CallbackQueue.equality) simp_all
  show ?thesis
    using False assms enqueueAll_fields [of items q]
      notifyLoop_fifo [of "map fst items" "map snd items" call "arg q" 0 "((q, u), log)"]
    by (simp add: notifyAll_def orEmpty_def z r)
qed

text \<open>
  Claim C6. \<^verbatim>\<open>notifyAll\<close> on a queue filled by \<^verbatim>\<open>enqueue\<close> calls invokes the callbacks in the
  order of the calls, each with the context it was enqueued with and the argument of the
  queue. The callbacks run against the queue with both lists already detached, so what a
  callback enqueues stays in the queue for a later cycle and is not invoked by this one:
  the invocations are those of the items enqueued before, whatever the callbacks do, and
  when no callback throws the log grows by exactly these items. When both lists are
  arrays of different lengths, \<^verbatim>\<open>notifyAll\<close> fails with the invariant before it changes the
  queue or invokes anything.
\<close>

theorem notifyAll_fifo:
  "(callbacks q = None \<and> contexts q = None \<longrightarrow>
      notifyAll call ((enqueueAll items q, u), log) = notifyFifo call (arg q) items ((q, u), log) \<and>
      ((\<forall>cb ctx w. \<exists>w'. call cb ctx (arg q) w = Return w') \<longrightarrow>
         (\<exists>w'. notifyAll call ((enqueueAll items q, u), log) =
                 Return (w', log @ map (\<lambda>(cb, ctx). (cb, Some ctx, arg q)) items)))) \<and>
   (callbacks q = Some cbs \<and> contexts q = Some ctxs \<and> length cbs \<noteq> length ctxs \<longrightarrow>
      notifyAll call ((q, u), log) = Throw InvariantViolation ((q, u), log))"
proof (intro conjI impI)
  assume e: "callbacks q = None \<and> contexts q = None"
  then show f: "notifyAll call ((enqueueAll items q, u), log) = notifyFifo call (arg q) items ((q, u), log)"
    by (simp add: notifyAll_enqueued)
  assume "\<forall>cb ctx w. \<exists>w'. call cb ctx (arg q) w = Return w'"
  then show "\<exists>w'. notifyAll call ((enqueueAll items q, u), log) =
                 Return (w', log @ map (\<lambda>(cb, ctx). (cb, Some ctx, arg q)) items)"
    unfolding f by (rule notifyFifo_log)
next
  assume "callbacks q = Some cbs \<and> contexts q = Some ctxs \<and> length cbs \<noteq> length ctxs"
  then show "notifyAll call ((q, u), log) = Throw InvariantViolation ((q, u), log)"
    by (simp add: notifyAll_def)
qed

lemma demoCall_returns: "\<forall>cb ctx w. \<exists>w'. demoCall cb ctx a w = Return w'"
  by (auto simp: demoCall_def split: prod.splits)

theorem notifyAll_fifo_witness:
  "notifyAll demoCall ((enqueueAll [(0, ''a''), (1, ''b'')] (CallbackQueue_new 7), ()), []) =
     Return ((enqueue 2 ''late'' (CallbackQueue_new 7), ()), [(0, Some ''a'', 7), (1, Some ''b'', 7)]) \<and>
   notifyAll demoCall ((\<lparr>callbacks = Some [Some 0], contexts = Some [], arg = 7\<rparr>, ()), []) =
     Throw InvariantViolation ((\<lparr>callbacks = Some [Some 0], contexts = Some [], arg = 7\<rparr>, ()), [])"
  using notifyAll_fifo [of "CallbackQueue_new 7" demoCall "[(0, ''a''), (1, ''b'')]" "()" "[]" "[Some 0]" "[]"]
    notifyAll_fifo [of "\<lparr>callbacks = Some [Some 0], contexts = Some [], arg = 7\<rparr>" demoCall "[]" "()" "[]" "[Some 0]" "[]"]
  by (simp add: CallbackQueue_new_def demoCall_def)

lemma setLength_append: "setLength (length xs) (xs @ ys) = xs"
  by (simp add: setLength_def)

lemma notifyLoop_Nil: "notifyLoop call a [] ctxs 0 wl = Return wl"
  by (cases wl) (simp add: notifyLoop.simps)

lemma paired_new: "paired (CallbackQueue_new a)"
  by (simp add: paired_def CallbackQueue_new_def)

lemma paired_enqueue: "paired q \<Longrightarrow> paired (enqueue cb ctx q)"
  by (auto simp: paired_def enqueue_def orEmpty_def split: option.splits)

lemma paired_rollback: "paired q \<Longrightarrow> paired (rollback n q)"
  by (auto simp: paired_def rollback_def setLength_def split: option.splits)

lemma paired_reset: "paired (reset q)"
  by (simp add: paired_def reset_def)

text \<open>
  Claim C7. For a queue in a state that satisfies the class invariant, taking
  \<open>n = checkpoint q\<close>, enqueueing any number of items and calling \<^verbatim>\<open>rollback(n)\<close> gives
  a queue that cannot be told from \<open>q\<close>: \<^verbatim>\<open>checkpoint\<close> returns \<open>n\<close> again and \<^verbatim>\<open>notifyAll\<close>
  has the same outcome, invocation log included, as on \<open>q\<close>. The queue is even equal to
  \<open>q\<close>, except that a queue whose lists were \<^verbatim>\<open>null\<close> now holds two empty arrays.
\<close>

theorem rollback_checkpoint:
  "paired q \<Longrightarrow>
   checkpoint (rollback (checkpoint q) (enqueueAll items q)) = checkpoint q \<and>
   notifyAll call ((rollback (checkpoint q) (enqueueAll items q), u), log) =
     notifyAll call ((q, u), log) \<and>
   (callbacks q \<noteq> None \<or> items = [] \<longrightarrow> rollback (checkpoint q) (enqueueAll items q) = q)"
proof (cases "items = []")
  case True
  assume "paired q"
  then have "rollback (checkpoint q) q = q"
    by (auto simp: rollback_def checkpoint_def paired_def setLength_def
             split: option.splits intro!: CallbackQueue.equality)
  then show ?thesis using True by (simp add: enqueueAll_def)
next
  case False
  assume p: "paired q"
  note f = enqueueAll_fields [of items q]
  show ?thesis
  proof (cases "callbacks q")
    case None
    then have c: "contexts q = None" using p by (simp add: paired_def split: option.splits)
    have cp: "checkpoint q = 0" using None by (simp add: checkpoint_def)
    have r: "rollback 0 (enqueueAll items q) = q\<lparr>callbacks := Some [], contexts := Some []\<rparr>"
      using False None c f
      by (intro CallbackQueue.equality) (simp_all add: rollback_def setLength_def orEmpty_def)
    have "q\<lparr>callbacks := None, contexts := None\<rparr> = q"
      using None c by (intro CallbackQueue.equality) simp_all
    then show ?thesis
      using None c False by (simp add: cp r) (simp add: checkpoint_def notifyAll_def notifyLoop_Nil)
  next
    case (Some cs)
    then obtain xs where x: "contexts q = Some xs" "length xs = length cs"
      using p by (auto simp: paired_def split: option.splits)
    have "rollback (checkpoint q) (enqueueAll items q) = q"
      using False Some x f
      by (intro CallbackQueue.equality)
         (simp_all add: rollback_def checkpoint_def orEmpty_def setLength_append
                        setLength_append [of xs, unfolded x(2)])
    then show ?thesis by simp
  qed
qed

theorem rollback_checkpoint_witness:
  "paired (enqueueAll [(0::nat, ''a''), (1, ''b'')] (CallbackQueue_new (7::nat))) \<and>
   checkpoint (rollback 2 (enqueueAll [(3::nat, ''x''), (4, ''y''), (5, ''z'')]
       (enqueueAll [(0, ''a''), (1, ''b'')] (CallbackQueue_new (7::nat))))) = 2 \<and>
   rollback 2 (enqueueAll [(3, ''x''), (4, ''y''), (5, ''z'')]
       (enqueueAll [(0, ''a''), (1, ''b'')] (CallbackQueue_new 7))) =
     enqueueAll [(0::nat, ''a''), (1, ''b'')] (CallbackQueue_new (7::nat))"
proof -
  let ?q = "enqueueAll [(0::nat, ''a''), (1, ''b'')] (CallbackQueue_new (7::nat))"
  have p: "paired ?q"
    by (simp add: enqueueAll_def paired_enqueue paired_new)
  have c: "checkpoint ?q = 2" "callbacks ?q \<noteq> None"
    by (simp_all add: enqueueAll_def enqueue_def checkpoint_def CallbackQueue_new_def orEmpty_def)
  from rollback_checkpoint [OF p, where items = "[(3, ''x''), (4, ''y''), (5, ''z'')]"
      and call = "\<lambda>cb ctx a w. Return w" and u = "()" and log = "[]"] p c
  show ?thesis by simp
qed

section \<open>Properties of ReactReconciler and ReactRef\<close>

text \<open>
  Claim C8. When the next element is the very object the instance holds as
  \<^verbatim>\<open>_currentElement\<close> and the context is the one it holds as \<^verbatim>\<open>_context\<close>,
  \<^verbatim>\<open>ReactReconciler.receiveComponent\<close> returns at once: the instance, the mount-ready
  queue, the rest of the program state and the log of effects (no ref detached or
  attached, the node kind not called) are as before.
\<close>

theorem receiveComponent_identity_noop:
  "nextElement = currentElement (internal s) \<and> ctx = currentContext (internal s) \<longrightarrow>
   receiveComponent X nextElement ctx (s, log) = Return (s, log)"
  by (simp add: receiveComponent_def)

theorem receiveComponent_identity_noop_witness:
  "receiveComponent demoCollaborators (ElementNode \<lparr>ident = 5, ref = RefString ''a'', owner = Some 2\<rparr>) 0
     (demoState (ElementNode \<lparr>ident = 5, ref = RefString ''a'', owner = Some 2\<rparr>), []) =
   Return (demoState (ElementNode \<lparr>ident = 5, ref = RefString ''a'', owner = Some 2\<rparr>), [])"
  using receiveComponent_identity_noop [of "ElementNode \<lparr>ident = 5, ref = RefString ''a'', owner = Some 2\<rparr>"
      "demoState (ElementNode \<lparr>ident = 5, ref = RefString ''a'', owner = Some 2\<rparr>)" 0 demoCollaborators "[]"]
  by (simp add: demoState_def demoInstance_def)

lemma callExternal_Return:
  "callExternal X c (s, log) = Return w' \<Longrightarrow>
     snd w' = log @ [External c] \<and> internal (fst w') = internal s"
  by (auto simp: callExternal_def split: outcome.splits)

lemma detachRefs_Return:
  "detachRefs X inst element (s, log) = Return w' \<Longrightarrow>
     snd w' = log @ detachEffects inst element \<and> internal (fst w') = internal s"
  by (auto simp: detachRefs_def detachRef_def detachEffects_def
           dest!: callExternal_Return split: node.splits refv.splits if_splits)

lemma runNodeKindReceive_Return:
  "runNodeKindReceive X nextElement ctx (s, log) = Return w' \<Longrightarrow>
     snd w' = log @ [NodeKindReceive (instanceId (internal s)) nextElement ctx]"
  by (auto simp: runNodeKindReceive_def Let_def split: outcome.splits)

lemma andThen_Return:
  "andThen m k = Return s' \<Longrightarrow> \<exists>s1. m = Return s1 \<and> k s1 = Return s'"
  by (cases m) (simp_all add: andThen_def)

lemma detachRefs_Return_if:
  assumes "(if ch then detachRefs X inst element (s, log) else Return (s, log)) = Return w1"
  shows "snd w1 = log @ (if ch then detachEffects inst element else [])"
    and "internal (fst w1) = internal s"
  using assms by (auto dest: detachRefs_Return split: if_splits)

lemma receiveComponent_steps:
  assumes r: "receiveComponent X nextElement ctx (s, log) = Return (s', log')"
    and n: "\<not> (nextElement = currentElement (internal s) \<and> ctx = currentContext (internal s))"
  shows "\<exists>w1 s2.
     (if shouldUpdateRefs (currentElement (internal s)) nextElement
      then detachRefs X (internal s) (currentElement (internal s)) (s, log)
      else Return (s, log)) = Return w1 \<and>
     snd w1 = log @ (if shouldUpdateRefs (currentElement (internal s)) nextElement
                     then detachEffects (internal s) (currentElement (internal s)) else []) \<and>
     internal (fst w1) = internal s \<and>
     nodeKindReceive X nextElement ctx (fst w1) = Return s2 \<and>
     s' = (if shouldUpdateRefs (currentElement (internal s)) nextElement
              \<and> hasRef (currentElement (internal s2))
           then s2\<lparr>mountReady := enqueue AttachRefs (instanceId (internal s2)) (mountReady s2)\<rparr>
           else s2) \<and>
     log' = snd w1 @ [NodeKindReceive (instanceId (internal s)) nextElement ctx]
        @ (if shouldUpdateRefs (currentElement (internal s)) nextElement
              \<and> hasRef (currentElement (internal s2))
           then [MountReadyEnqueue (instanceId (internal s2))] else [])"
proof -
  let ?prev = "currentElement (internal s)"
  let ?ch = "shouldUpdateRefs ?prev nextElement"
  from r n obtain w1 w2 where
    1: "(if ?ch then detachRefs X (internal s) ?prev (s, log) else Return (s, log)) = Return w1"
    and 2: "runNodeKindReceive X nextElement ctx w1 = Return w2"
    and 3: "(if ?ch \<and> hasRef (currentElement (internal (fst w2)))
             then enqueueAttachRefs w2 else Return w2) = Return (s', log')"
    by (auto simp: receiveComponent_def Let_def cong: if_cong dest!: andThen_Return)
  note w1 = detachRefs_Return_if [OF 1]
  obtain s1 l1 where p1: "w1 = (s1, l1)" by (cases w1)
  from 2 obtain s2 where s2: "nodeKindReceive X nextElement ctx s1 = Return s2"
    and w2: "w2 = (s2, l1 @ [NodeKindReceive (instanceId (internal s1)) nextElement ctx])"
    unfolding p1 by (auto simp: runNodeKindReceive_def Let_def split: outcome.splits)
  from 3 have "s' = (if ?ch \<and> hasRef (currentElement (internal s2))
           then s2\<lparr>mountReady := enqueue AttachRefs (instanceId (internal s2)) (mountReady s2)\<rparr>
           else s2)"
      "log' = snd w2 @ (if ?ch \<and> hasRef (currentElement (internal s2))
                        then [MountReadyEnqueue (instanceId (internal s2))] else [])"
    unfolding w2 by (auto simp: enqueueAttachRefs_def split: if_splits)
  with 1 w1 s2 w2 show ?thesis by (simp add: p1)
qed

lemma shouldUpdateRefs_iff:
  "shouldUpdateRefs prevElement nextElement \<longleftrightarrow>
     refOf prevElement \<noteq> refOf nextElement \<or>
     ((\<exists>name. refOf nextElement = RefString name) \<and> ownerOf nextElement \<noteq> ownerOf prevElement)"
  by (auto simp: shouldUpdateRefs_def Let_def isString_def split: refv.splits)

text \<open>
  Claim C9 as stated fails where a ref is removed: the element changes from the name ref
  \<open>''a''\<close> to no ref, \<^verbatim>\<open>shouldUpdateRefs\<close> is true, the old ref is detached and the node kind
  updated, but no attach is enqueued, because the element then held has no ref: the
  mount-ready queue is as before.
\<close>

theorem shouldUpdateRefs_attach_counterexample:
  "shouldUpdateRefs namedElement bareElement \<and>
   receiveComponent demoCollaborators bareElement 0 (demoState namedElement, []) =
     Return (demoState bareElement,
       [External (RemoveComponentAsRefFrom 1 (RefString ''a'') (Some 2)),
        NodeKindReceive 1 bareElement 0]) \<and>
   mountReady (demoState bareElement) = mountReady (demoState namedElement)"
  by (simp add: shouldUpdateRefs_iff refOf_def ownerOf_def namedElement_def bareElement_def
      receiveComponent_def demoState_def demoInstance_def demoCollaborators_def
      detachRefs_def detachRef_def notNullish_def callExternal_def andThen_def
      runNodeKindReceive_def hasRef_def)

text \<open>
  Claim C9, amended. \<^verbatim>\<open>shouldUpdateRefs\<close> is true exactly when the two refs are not
  identical, or the next ref is a string and the owners differ (an element that is not an
  object counts as ref \<^verbatim>\<open>null\<close>, owner \<^verbatim>\<open>null\<close>); two elements with one function ref never
  need a ref update, whatever their owners. A \<^verbatim>\<open>receiveComponent\<close> that is not the identity
  bypass and returns has done this, in this order. When the predicate is true it has
  called \<^verbatim>\<open>ReactRef.detachRefs\<close> with the previous element, which detaches its ref if it has
  one and leaves the instance alone. The \<^verbatim>\<open>receiveComponent\<close> of the node kind has then run
  on the state so reached. The state returned is the one the node kind left, and exactly
  when the predicate is true and the element the instance then holds has a ref, the
  callback \<^verbatim>\<open>attachRefs\<close> with the instance as its context has been enqueued at the end of the
  mount-ready queue as the node kind left it. The log of effects shows the same order.
\<close>

theorem shouldUpdateRefs_protocol:
  "(shouldUpdateRefs prevElement nextElement \<longleftrightarrow>
      refOf prevElement \<noteq> refOf nextElement \<or>
      ((\<exists>name. refOf nextElement = RefString name) \<and> ownerOf nextElement \<noteq> ownerOf prevElement)) \<and>
   (ref e1 = RefFunction f \<and> ref e2 = RefFunction f \<longrightarrow>
      \<not> shouldUpdateRefs (ElementNode e1) (ElementNode e2)) \<and>
   (receiveComponent X nextElement ctx (s, log) = Return (s', log') \<and>
    \<not> (nextElement = currentElement (internal s) \<and> ctx = currentContext (internal s)) \<longrightarrow>
      (\<exists>w1 s2.
         (if shouldUpdateRefs (currentElement (internal s)) nextElement
          then detachRefs X (internal s) (currentElement (internal s)) (s, log)
          else Return (s, log)) = Return w1 \<and>
         snd w1 = log @ (if shouldUpdateRefs (currentElement (internal s)) nextElement
                         then detachEffects (internal s) (currentElement (internal s)) else []) \<and>
         internal (fst w1) = internal s \<and>
         nodeKindReceive X nextElement ctx (fst w1) = Return s2 \<and>
         s' = (if shouldUpdateRefs (currentElement (internal s)) nextElement
                  \<and> hasRef (currentElement (internal s2))
               then s2\<lparr>mountReady :=
                         enqueue AttachRefs (instanceId (internal s2)) (mountReady s2)\<rparr>
               else s2) \<and>
         log' = snd w1 @ [NodeKindReceive (instanceId (internal s)) nextElement ctx]
            @ (if shouldUpdateRefs (currentElement (internal s)) nextElement
                  \<and> hasRef (currentElement (internal s2))
               then [MountReadyEnqueue (instanceId (internal s2))] else [])))"
proof -
  have A: "shouldUpdateRefs prevElement nextElement \<longleftrightarrow>
      refOf prevElement \<noteq> refOf nextElement \<or>
      ((\<exists>name. refOf nextElement = RefString name) \<and> ownerOf nextElement \<noteq> ownerOf prevElement)"
    by (rule shouldUpdateRefs_iff)
  have B: "ref e1 = RefFunction f \<and> ref e2 = RefFunction f \<longrightarrow>
      \<not> shouldUpdateRefs (ElementNode e1) (ElementNode e2)"
    by (simp add: shouldUpdateRefs_iff refOf_def)
  have C: "receiveComponent X nextElement ctx (s, log) = Return (s', log') \<and>
    \<not> (nextElement = currentElement (internal s) \<and> ctx = currentContext (internal s)) \<longrightarrow>
      (\<exists>w1 s2.
         (if shouldUpdateRefs (currentElement (internal s)) nextElement
          then detachRefs X (internal s) (currentElement (internal s)) (s, log)
          else Return (s, log)) = Return w1 \<and>
         snd w1 = log @ (if shouldUpdateRefs (currentElement (internal s)) nextElement
                         then detachEffects (internal s) (currentElement (internal s)) else []) \<and>
         internal (fst w1) = internal s \<and>
         nodeKindReceive X nextElement ctx (fst w1) = Return s2 \<and>
         s' = (if shouldUpdateRefs (currentElement (internal s)) nextElement
                  \<and> hasRef (currentElement (internal s2))
               then s2\<lparr>mountReady :=
                         enqueue AttachRefs (instanceId (internal s2)) (mountReady s2)\<rparr>
               else s2) \<and>
         log' = snd w1 @ [NodeKindReceive (instanceId (internal s)) nextElement ctx]
            @ (if shouldUpdateRefs (currentElement (internal s)) nextElement
                  \<and> hasRef (currentElement (internal s2))
               then [MountReadyEnqueue (instanceId (internal s2))] else []))"
  proof (rule impI)
    assume a: "receiveComponent X nextElement ctx (s, log) = Return (s', log') \<and>
      \<not> (nextElement = currentElement (internal s) \<and> ctx = currentContext (internal s))"
    show "\<exists>w1 s2.
         (if shouldUpdateRefs (currentElement (internal s)) nextElement
          then detachRefs X (internal s) (currentElement (internal s)) (s, log)
          else Return (s, log)) = Return w1 \<and>
         snd w1 = log @ (if shouldUpdateRefs (currentElement (internal s)) nextElement
                         then detachEffects (internal s) (currentElement (internal s)) else []) \<and>
         internal (fst w1) = internal s \<and>
         nodeKindReceive X nextElement ctx (fst w1) = Return s2 \<and>
         s' = (if shouldUpdateRefs (currentElement (internal s)) nextElement
                  \<and> hasRef (currentElement (internal s2))
               then s2\<lparr>mountReady :=
                         enqueue AttachRefs (instanceId (internal s2)) (mountReady s2)\<rparr>
               else s2) \<and>
         log' = snd w1 @ [NodeKindReceive (instanceId (internal s)) nextElement ctx]
            @ (if shouldUpdateRefs (currentElement (internal s)) nextElement
                  \<and> hasRef (currentElement (internal s2))
               then [MountReadyEnqueue (instanceId (internal s2))] else [])"
      by (rule receiveComponent_steps [OF conjunct1 [OF a] conjunct2 [OF a]])
  qed
  from A B C show ?thesis by - (intro conjI; assumption)
qed

lemma demo_named_to_callback:
  "receiveComponent demoCollaborators callbackElement 0 (demoState namedElement, []) =
     Return ((demoState callbackElement)
               \<lparr>mountReady := enqueue AttachRefs 1 (CallbackQueue_new ())\<rparr>,
       [External (RemoveComponentAsRefFrom 1 (RefString ''a'') (Some 2)),
        NodeKindReceive 1 callbackElement 0, MountReadyEnqueue 1])"
  by (simp add: shouldUpdateRefs_iff refOf_def ownerOf_def namedElement_def callbackElement_def
      receiveComponent_def demoState_def demoInstance_def demoCollaborators_def
      detachRefs_def detachRef_def notNullish_def callExternal_def andThen_def
      runNodeKindReceive_def hasRef_def enqueueAttachRefs_def)

theorem shouldUpdateRefs_protocol_witness:
  "shouldUpdateRefs namedElement callbackElement \<and>
   \<not> shouldUpdateRefs callbackElement
        (ElementNode \<lparr>ident = 8, ref = RefFunction 3, owner = Some 9\<rparr>) \<and>
   receiveComponent demoCollaborators callbackElement 0 (demoState namedElement, []) =
     Return ((demoState callbackElement)
               \<lparr>mountReady := enqueue AttachRefs 1 (CallbackQueue_new ())\<rparr>,
       [External (RemoveComponentAsRefFrom 1 (RefString ''a'') (Some 2)),
        NodeKindReceive 1 callbackElement 0, MountReadyEnqueue 1]) \<and>
   (\<exists>w1 s2.
      detachRefs demoCollaborators (demoInstance namedElement) namedElement
        (demoState namedElement, []) = Return w1 \<and>
      snd w1 = [External (RemoveComponentAsRefFrom 1 (RefString ''a'') (Some 2))] \<and>
      nodeKindReceive demoCollaborators callbackElement 0 (fst w1) = Return s2 \<and>
      (demoState callbackElement)\<lparr>mountReady := enqueue AttachRefs 1 (CallbackQueue_new ())\<rparr> =
        s2\<lparr>mountReady := enqueue AttachRefs (instanceId (internal s2)) (mountReady s2)\<rparr>)"
proof -
  let ?S = "(demoState callbackElement)\<lparr>mountReady := enqueue AttachRefs 1 (CallbackQueue_new ())\<rparr>"
  let ?L = "[External (RemoveComponentAsRefFrom 1 (RefString ''a'') (Some 2)),
        NodeKindReceive 1 callbackElement 0, MountReadyEnqueue 1]"
  have ch: "shouldUpdateRefs namedElement callbackElement"
    by (simp add: shouldUpdateRefs_iff refOf_def namedElement_def callbackElement_def)
  have cur: "currentElement (internal (demoState namedElement)) = namedElement"
    "internal (demoState namedElement) = demoInstance namedElement"
    by (simp_all add: demoState_def demoInstance_def)
  have nb: "\<not> (callbackElement = currentElement (internal (demoState namedElement)) \<and>
             0 = currentContext (internal (demoState namedElement)))"
    by (simp add: demoState_def demoInstance_def namedElement_def callbackElement_def)
  from shouldUpdateRefs_protocol [where prevElement = namedElement and nextElement = callbackElement
      and ?e1.0 = "\<lparr>ident = 7, ref = RefFunction 3, owner = Some 2\<rparr>" and f = 3
      and ?e2.0 = "\<lparr>ident = 8, ref = RefFunction 3, owner = Some 9\<rparr>"
      and X = demoCollaborators and ctx = 0 and s = "demoState namedElement" and log = "[]"
      and s' = ?S and log' = ?L]
  have f: "\<not> shouldUpdateRefs (ElementNode \<lparr>ident = 7, ref = RefFunction 3, owner = Some 2\<rparr>)
              (ElementNode \<lparr>ident = 8, ref = RefFunction 3, owner = Some 9\<rparr>)"
    and st: "receiveComponent demoCollaborators callbackElement 0 (demoState namedElement, []) =
        Return (?S, ?L) \<and>
      \<not> (callbackElement = currentElement (internal (demoState namedElement)) \<and>
         0 = currentContext (internal (demoState namedElement))) \<longrightarrow>
      (\<exists>w1 s2.
         (if shouldUpdateRefs (currentElement (internal (demoState namedElement))) callbackElement
          then detachRefs demoCollaborators (internal (demoState namedElement))
                 (currentElement (internal (demoState namedElement))) (demoState namedElement, [])
          else Return (demoState namedElement, [])) = Return w1 \<and>
         snd w1 = [] @ (if shouldUpdateRefs (currentElement (internal (demoState namedElement))) callbackElement
                         then detachEffects (internal (demoState namedElement))
                                (currentElement (internal (demoState namedElement))) else []) \<and>
         internal (fst w1) = internal (demoState namedElement) \<and>
         nodeKindReceive demoCollaborators callbackElement 0 (fst w1) = Return s2 \<and>
         ?S = (if shouldUpdateRefs (currentElement (internal (demoState namedElement))) callbackElement
                  \<and> hasRef (currentElement (internal s2))
               then s2\<lparr>mountReady :=
                         enqueue AttachRefs (instanceId (internal s2)) (mountReady s2)\<rparr>
               else s2) \<and>
         ?L = snd w1 @ [NodeKindReceive (instanceId (internal (demoState namedElement))) callbackElement 0]
            @ (if shouldUpdateRefs (currentElement (internal (demoState namedElement))) callbackElement
                  \<and> hasRef (currentElement (internal s2))
               then [MountReadyEnqueue (instanceId (internal s2))] else []))"
    by simp_all
  from st demo_named_to_callback nb obtain w1 s2 where
    1: "(if shouldUpdateRefs (currentElement (internal (demoState namedElement))) callbackElement
          then detachRefs demoCollaborators (internal (demoState namedElement))
                 (currentElement (internal (demoState namedElement))) (demoState namedElement, [])
          else Return (demoState namedElement, [])) = Return w1"
    and 2: "snd w1 = [] @ (if shouldUpdateRefs (currentElement (internal (demoState namedElement))) callbackElement
                         then detachEffects (internal (demoState namedElement))
                                (currentElement (internal (demoState namedElement))) else [])"
    and 3: "nodeKindReceive demoCollaborators callbackElement 0 (fst w1) = Return s2"
    and 4: "?S = (if shouldUpdateRefs (currentElement (internal (demoState namedElement))) callbackElement
                  \<and> hasRef (currentElement (internal s2))
               then s2\<lparr>mountReady :=
                         enqueue AttachRefs (instanceId (internal s2)) (mountReady s2)\<rparr>
               else s2)"
    by blast
  from 1 ch have 1: "detachRefs demoCollaborators (demoInstance namedElement) namedElement
          (demoState namedElement, []) = Return w1"
    by (simp add: cur(1)) (simp add: cur(2))
  from 2 ch have 2: "snd w1 = detachEffects (demoInstance namedElement) namedElement"
    by (simp add: cur(1)) (simp add: cur(2))
  from 4 ch have 4: "?S = (if hasRef (currentElement (internal s2))
               then s2\<lparr>mountReady :=
                         enqueue AttachRefs (instanceId (internal s2)) (mountReady s2)\<rparr>
               else s2)"
    by (simp add: cur(1))
  from 3 have "currentElement (internal s2) = callbackElement"
    by (auto simp: demoCollaborators_def)
  then have "hasRef (currentElement (internal s2))"
    by (simp add: hasRef_def callbackElement_def notNullish_def)
  with 4 have 5: "?S = s2\<lparr>mountReady :=
                         enqueue AttachRefs (instanceId (internal s2)) (mountReady s2)\<rparr>" by simp
  from 2 have 6: "snd w1 = [External (RemoveComponentAsRefFrom 1 (RefString ''a'') (Some 2))]"
    by (simp add: detachEffects_def namedElement_def demoInstance_def notNullish_def)
  have f': "\<not> shouldUpdateRefs callbackElement
        (ElementNode \<lparr>ident = 8, ref = RefFunction 3, owner = Some 9\<rparr>)"
    using f by (simp add: callbackElement_def)
  from ch f' demo_named_to_callback 1 6 3 5 show ?thesis by blast
qed

section \<open>Properties of Transaction\<close>

lemma observe_endsIn:
  "endsIn (hook s) s' \<Longrightarrow>
   observe ev hook (s, log) =
     (case thrown (hook s) of None \<Rightarrow> Return (s', log @ [ev]) | Some e \<Rightarrow> Throw e (s', log @ [ev]))"
  by (auto simp: observe_def endsIn_def thrown_def split: outcome.splits)

lemma observe_Return: "hook s = Return s' \<Longrightarrow> observe ev hook (s, log) = Return (s', log @ [ev])"
  by (simp add: observe_def)

lemma observe_Throw: "hook s = Throw e s' \<Longrightarrow> observe ev hook (s, log) = Throw e (s', log @ [ev])"
  by (simp add: observe_def)

text \<open>
  Claim C4. For a \<^verbatim>\<open>perform\<close> with the wrappers \<open>[w1, w2]\<close>: when \<open>w2.initialize\<close> throws,
  \<open>w1.close\<close> still runs, \<open>w2.close\<close> and the method do not, and the error of
  \<open>w2.initialize\<close> is thrown to the caller even when \<open>w1.close\<close> throws as well; when the
  method throws, both closes run, whether the first of them throws or not, and the error
  of the method is thrown; when a close throws after the method returned, the other close
  still runs and the first error is the one thrown; and when nothing throws all five
  hooks run in order and \<^verbatim>\<open>perform\<close> returns.
\<close>

theorem perform_symmetry:
  "(initialize w1 s = Return s1 \<and> initialize w2 s1 = Throw e s2 \<and> endsIn (close w1 s2) s3 \<longrightarrow>
      perform [observed 0 w1, observed 1 w2] (observe MethodCalled wrapped) (s, []) =
        Throw e (s3, [InitializeCalled 0, InitializeCalled 1, CloseCalled 0])) \<and>
   (initialize w1 s = Return s1 \<and> initialize w2 s1 = Return s2 \<and> wrapped s2 = Throw e s3 \<and>
    endsIn (close w1 s3) s4 \<and> endsIn (close w2 s4) s5 \<longrightarrow>
      perform [observed 0 w1, observed 1 w2] (observe MethodCalled wrapped) (s, []) =
        Throw e (s5, [InitializeCalled 0, InitializeCalled 1, MethodCalled,
                      CloseCalled 0, CloseCalled 1])) \<and>
   (initialize w1 s = Return s1 \<and> initialize w2 s1 = Return s2 \<and> wrapped s2 = Return s3 \<and>
    close w1 s3 = Throw e s4 \<and> endsIn (close w2 s4) s5 \<longrightarrow>
      perform [observed 0 w1, observed 1 w2] (observe MethodCalled wrapped) (s, []) =
        Throw e (s5, [InitializeCalled 0, InitializeCalled 1, MethodCalled,
                      CloseCalled 0, CloseCalled 1])) \<and>
   (initialize w1 s = Return s1 \<and> initialize w2 s1 = Return s2 \<and> wrapped s2 = Return s3 \<and>
    close w1 s3 = Return s4 \<and> close w2 s4 = Throw e s5 \<longrightarrow>
      perform [observed 0 w1, observed 1 w2] (observe MethodCalled wrapped) (s, []) =
        Throw e (s5, [InitializeCalled 0, InitializeCalled 1, MethodCalled,
                      CloseCalled 0, CloseCalled 1])) \<and>
   (initialize w1 s = Return s1 \<and> initialize w2 s1 = Return s2 \<and> wrapped s2 = Return s3 \<and>
    close w1 s3 = Return s4 \<and> close w2 s4 = Return s5 \<longrightarrow>
      perform [observed 0 w1, observed 1 w2] (observe MethodCalled wrapped) (s, []) =
        Return (s5, [InitializeCalled 0, InitializeCalled 1, MethodCalled,
                     CloseCalled 0, CloseCalled 1]))"
  by (auto simp: perform_def observed_def observe_Return observe_Throw observe_endsIn firstError_def
           split: option.splits)

theorem perform_symmetry_witness:
  "perform [observed 0 (demoWrapper 0 False True), observed 1 (demoWrapper 1 True False)]
     (observe MethodCalled (\<lambda>s. Return (s @ [99]))) ([], []) =
     Throw (UserError 11) ([10, 11, 20], [InitializeCalled 0, InitializeCalled 1, CloseCalled 0]) \<and>
   perform [observed 0 (demoWrapper 0 False True), observed 1 (demoWrapper 1 False False)]
     (observe MethodCalled (\<lambda>s. Throw (UserError 99) (s @ [99]))) ([], []) =
     Throw (UserError 99) ([10, 11, 99, 20, 21],
       [InitializeCalled 0, InitializeCalled 1, MethodCalled, CloseCalled 0, CloseCalled 1])"
  using perform_symmetry [where ?w1.0 = "demoWrapper 0 False True" and ?w2.0 = "demoWrapper 1 True False"
      and s = "[]" and ?s1.0 = "[10]" and ?s2.0 = "[10, 11]" and ?s3.0 = "[10, 11, 20]"
      and e = "UserError 11" and wrapped = "\<lambda>s. Return (s @ [99])"]
    perform_symmetry [where ?w1.0 = "demoWrapper 0 False True" and ?w2.0 = "demoWrapper 1 False False"
      and s = "[]" and ?s1.0 = "[10]" and ?s2.0 = "[10, 11]" and ?s3.0 = "[10, 11, 99]"
      and ?s4.0 = "[10, 11, 99, 20]" and ?s5.0 = "[10, 11, 99, 20, 21]"
      and e = "UserError 99" and wrapped = "\<lambda>s. Throw (UserError 99) (s @ [99])"]
  by (simp add: demoWrapper_def endsIn_def)

section \<open>Properties of ReactUpdates\<close>

subsection \<open>Outcomes\<close>

lemma post_simps [simp]:
  "post Q R (Return s) = Q s" "post Q R (Throw e s) = R s" "post Q R OutOfFuel = True"
  by (simp_all add: post_def)

lemma post_mono:
  "post Q R r \<Longrightarrow> (\<And>s. Q s \<Longrightarrow> Q' s) \<Longrightarrow> (\<And>s. R s \<Longrightarrow> R' s) \<Longrightarrow> post Q' R' r"
  by (cases r) simp_all

lemma post_andThen:
  "post Q' R m \<Longrightarrow> (\<And>s. Q' s \<Longrightarrow> post Q R (k s)) \<Longrightarrow> post Q R (andThen m k)"
  by (cases m) (simp_all add: andThen_def)

lemma andThen_simps [simp]:
  "andThen (Return s) k = k s" "andThen (Throw e s) k = Throw e s" "andThen OutOfFuel k = OutOfFuel"
  by (simp_all add: andThen_def)

lemma post_onScheduler:
  "post (\<lambda>s'. Q (s', t)) (\<lambda>s'. R (s', t)) (f s) \<Longrightarrow> post Q R (onScheduler f (s, t))"
  by (cases "f s") (simp_all add: onScheduler_def)

lemma onScheduler_Return:
  "onScheduler f (s, t) = Return w \<longleftrightarrow> (\<exists>s'. f s = Return s' \<and> w = (s', t))"
  by (cases "f s") (auto simp: onScheduler_def)

subsection \<open>The state updates\<close>

lemma logEvent_simps [simp]:
  "dirtyComponents (logEvent ev s) = dirtyComponents s"
  "updateBatchNumber (logEvent ev s) = updateBatchNumber s"
  "asapCallbackQueue (logEvent ev s) = asapCallbackQueue s"
  "asapEnqueued (logEvent ev s) = asapEnqueued s"
  "reconcileTransactionInjected (logEvent ev s) = reconcileTransactionInjected s"
  "batchingStrategyInjected (logEvent ev s) = batchingStrategyInjected s"
  "injected (logEvent ev s) = injected s"
  "isBatchingUpdates (logEvent ev s) = isBatchingUpdates s"
  "instances (logEvent ev s) = instances s"
  "flushTransactionPool (logEvent ev s) = flushTransactionPool s"
  "callbackQueuePool (logEvent ev s) = callbackQueuePool s"
  "reconcileTransactionPool (logEvent ev s) = reconcileTransactionPool s"
  "trace (logEvent ev s) = trace s @ [ev]"
  "batchNumberOf (logEvent ev s) c = batchNumberOf s c"
  by (simp_all add: logEvent_def batchNumberOf_def injected_def)

lemma setBatchNumber_simps [simp]:
  "dirtyComponents (setBatchNumber c b s) = dirtyComponents s"
  "updateBatchNumber (setBatchNumber c b s) = updateBatchNumber s"
  "asapCallbackQueue (setBatchNumber c b s) = asapCallbackQueue s"
  "asapEnqueued (setBatchNumber c b s) = asapEnqueued s"
  "batchingStrategyInjected (setBatchNumber c b s) = batchingStrategyInjected s"
  "injected (setBatchNumber c b s) = injected s"
  "isBatchingUpdates (setBatchNumber c b s) = isBatchingUpdates s"
  "flushTransactionPool (setBatchNumber c b s) = flushTransactionPool s"
  "callbackQueuePool (setBatchNumber c b s) = callbackQueuePool s"
  "reconcileTransactionPool (setBatchNumber c b s) = reconcileTransactionPool s"
  "trace (setBatchNumber c b s) = trace s"
  "batchNumberOf (setBatchNumber c b s) c' = (if c' = c then b else batchNumberOf s c')"
  "mountOrder (instances (setBatchNumber c b s) c') = mountOrder (instances s c')"
  "publicInstance (instances (setBatchNumber c b s) c') = publicInstance (instances s c')"
  "pendingCallbacks (instances (setBatchNumber c b s) c') = pendingCallbacks (instances s c')"
  by (simp_all add: setBatchNumber_def batchNumberOf_def injected_def)

lemma setPendingCallbacks_simps [simp]:
  "dirtyComponents (setPendingCallbacks c x s) = dirtyComponents s"
  "updateBatchNumber (setPendingCallbacks c x s) = updateBatchNumber s"
  "asapCallbackQueue (setPendingCallbacks c x s) = asapCallbackQueue s"
  "asapEnqueued (setPendingCallbacks c x s) = asapEnqueued s"
  "batchingStrategyInjected (setPendingCallbacks c x s) = batchingStrategyInjected s"
  "injected (setPendingCallbacks c x s) = injected s"
  "isBatchingUpdates (setPendingCallbacks c x s) = isBatchingUpdates s"
  "flushTransactionPool (setPendingCallbacks c x s) = flushTransactionPool s"
  "callbackQueuePool (setPendingCallbacks c x s) = callbackQueuePool s"
  "reconcileTransactionPool (setPendingCallbacks c x s) = reconcileTransactionPool s"
  "trace (setPendingCallbacks c x s) = trace s"
  "batchNumberOf (setPendingCallbacks c x s) c' = batchNumberOf s c'"
  "mountOrder (instances (setPendingCallbacks c x s) c') = mountOrder (instances s c')"
  "publicInstance (instances (setPendingCallbacks c x s) c') = publicInstance (instances s c')"
  "pendingCallbacks (instances (setPendingCallbacks c x s) c') =
     (if c' = c then x else pendingCallbacks (instances s c'))"
  by (simp_all add: setPendingCallbacks_def batchNumberOf_def injected_def)

lemma injected_update [simp]:
  "injected (s\<lparr>dirtyComponents := d\<rparr>) = injected s"
  "injected (s\<lparr>updateBatchNumber := n\<rparr>) = injected s"
  "injected (s\<lparr>asapCallbackQueue := q\<rparr>) = injected s"
  "injected (s\<lparr>asapEnqueued := b\<rparr>) = injected s"
  "injected (s\<lparr>isBatchingUpdates := b\<rparr>) = injected s"
  "injected (s\<lparr>instances := f\<rparr>) = injected s"
  "injected (s\<lparr>flushTransactionPool := p\<rparr>) = injected s"
  "injected (s\<lparr>callbackQueuePool := p\<rparr>) = injected s"
  "injected (s\<lparr>reconcileTransactionPool := p\<rparr>) = injected s"
  "injected (s\<lparr>trace := tr\<rparr>) = injected s"
  by (simp_all add: injected_def)

lemma batchNumberOf_update [simp]:
  "batchNumberOf (s\<lparr>dirtyComponents := d\<rparr>) = batchNumberOf s"
  "batchNumberOf (s\<lparr>updateBatchNumber := n\<rparr>) = batchNumberOf s"
  "batchNumberOf (s\<lparr>asapCallbackQueue := q\<rparr>) = batchNumberOf s"
  "batchNumberOf (s\<lparr>asapEnqueued := b\<rparr>) = batchNumberOf s"
  "batchNumberOf (s\<lparr>flushTransactionPool := p\<rparr>) = batchNumberOf s"
  "batchNumberOf (s\<lparr>callbackQueuePool := p\<rparr>) = batchNumberOf s"
  "batchNumberOf (s\<lparr>reconcileTransactionPool := p\<rparr>) = batchNumberOf s"
  "batchNumberOf (s\<lparr>trace := tr\<rparr>) = batchNumberOf s"
  by (simp_all add: batchNumberOf_def fun_eq_iff)

subsection \<open>User calls inside a batching scope\<close>

text \<open>What one user call does to the scheduler while updates are being batched.\<close>

lemma enqueueUpdate_batching:
  "injected s \<Longrightarrow> isBatchingUpdates s \<Longrightarrow>
   enqueueUpdate P c s =
     Return (logEvent (Enqueued c (batchNumberOf s c = None)
                         (case batchNumberOf s c of None \<Rightarrow> updateBatchNumber s + 1 | Some b \<Rightarrow> b))
       ((if batchNumberOf s c = None then setBatchNumber c (Some (updateBatchNumber s + 1)) else id)
          (s\<lparr>dirtyComponents := dirtyComponents s @ [c]\<rparr>)))"
  by (simp add: enqueueUpdate_def ensureInjected_def Let_def split: option.splits)

lemma asap_batching:
  "injected s \<Longrightarrow> isBatchingUpdates s \<Longrightarrow>
   asap cb ctx s = Return (s\<lparr>asapCallbackQueue := enqueue cb ctx (asapCallbackQueue s),
                             asapEnqueued := True\<rparr>)"
  by (simp add: asap_def injected_def)

lemma runScript_post:
  assumes "\<And>u s. I s \<Longrightarrow> post I R (runUserCall P u s)" and "I s"
  shows "post I R (runScript P us s)"
  using assms(2)
proof (induction us arbitrary: s)
  case Nil
  then show ?case by simp
next
  case (Cons u us)
  show ?case
    unfolding runScript.simps
    by (rule post_andThen [OF assms(1) [OF Cons.prems]]) (rule Cons.IH)
qed

lemma runScript_append:
  "runScript P (us @ vs) s = andThen (runScript P us s) (runScript P vs)"
proof (induction us arbitrary: s)
  case Nil
  then show ?case by simp
next
  case (Cons u us)
  then show ?case by (cases "runUserCall P u s") simp_all
qed

text \<open>The effect of a list of \<^verbatim>\<open>enqueueUpdate\<close> calls inside a batching scope.\<close>

lemma enqueueUpdates_batching:
  "injected s \<Longrightarrow> isBatchingUpdates s \<Longrightarrow>
   \<exists>s'. runScript P (map EnqueueUpdate cs) s = Return s' \<and>
        injected s' \<and> isBatchingUpdates s' \<and>
        dirtyComponents s' = dirtyComponents s @ cs \<and>
        updateBatchNumber s' = updateBatchNumber s \<and>
        (\<forall>c. batchNumberOf s' c =
               (if batchNumberOf s c = None \<and> c \<in> set cs then Some (updateBatchNumber s + 1)
                else batchNumberOf s c))"
proof (induction cs arbitrary: s)
  case Nil
  then show ?case by simp
next
  case (Cons c cs)
  let ?s1 = "logEvent (Enqueued c (batchNumberOf s c = None)
                         (case batchNumberOf s c of None \<Rightarrow> updateBatchNumber s + 1 | Some b \<Rightarrow> b))
       ((if batchNumberOf s c = None then setBatchNumber c (Some (updateBatchNumber s + 1)) else id)
          (s\<lparr>dirtyComponents := dirtyComponents s @ [c]\<rparr>))"
  have 1: "runUserCall P (EnqueueUpdate c) s = Return ?s1"
    using Cons.prems by (simp add: runUserCall_def enqueueUpdate_batching)
  have f: "injected ?s1" "isBatchingUpdates ?s1" "dirtyComponents ?s1 = dirtyComponents s @ [c]"
    "updateBatchNumber ?s1 = updateBatchNumber s"
    "\<And>c'. batchNumberOf ?s1 c' =
        (if batchNumberOf s c' = None \<and> c' = c then Some (updateBatchNumber s + 1)
         else batchNumberOf s c')"
    using Cons.prems by auto
  from Cons.IH [OF f(1) f(2)] obtain s' where
    s': "runScript P (map EnqueueUpdate cs) ?s1 = Return s'" "injected s'" "isBatchingUpdates s'"
      "dirtyComponents s' = dirtyComponents ?s1 @ cs" "updateBatchNumber s' = updateBatchNumber ?s1"
      "\<forall>c'. batchNumberOf s' c' =
               (if batchNumberOf ?s1 c' = None \<and> c' \<in> set cs then Some (updateBatchNumber ?s1 + 1)
                else batchNumberOf ?s1 c')"
    by blast
  have "runScript P (map EnqueueUpdate (c # cs)) s = Return s'"
    using 1 s'(1) by simp
  moreover have "\<forall>c'. batchNumberOf s' c' =
               (if batchNumberOf s c' = None \<and> c' \<in> set (c # cs) then Some (updateBatchNumber s + 1)
                else batchNumberOf s c')"
    using s'(6) f(4) f(5) by auto
  ultimately show ?case
    using s'(2,3,4,5) f(3,4) by simp
qed

text \<open>
  Claim C10. Inside a batching scope every \<^verbatim>\<open>enqueueUpdate\<close> call appends its instance to
  \<^verbatim>\<open>dirtyComponents\<close>, whether the instance is there already or not: after the calls for
  \<open>cs\<close> the array has grown by \<open>cs\<close>. An instance whose \<^verbatim>\<open>_updateBatchNumber\<close> was \<^verbatim>\<open>null\<close>
  gets \<^verbatim>\<open>updateBatchNumber + 1\<close>; an instance that had a batch number keeps it, however
  often it is scheduled again. Outside a batching scope the call is handed to the
  batching strategy, which calls \<^verbatim>\<open>enqueueUpdate\<close> again inside a scope of its own; before
  the injections it fails with the invariant.
\<close>

theorem enqueueUpdate_appends:
  "(injected s \<and> isBatchingUpdates s \<longrightarrow>
      (\<exists>s'. runScript P (map EnqueueUpdate cs) s = Return s' \<and>
         dirtyComponents s' = dirtyComponents s @ cs \<and>
         updateBatchNumber s' = updateBatchNumber s \<and>
         (\<forall>c. batchNumberOf s' c =
                (if batchNumberOf s c = None \<and> c \<in> set cs then Some (updateBatchNumber s + 1)
                 else batchNumberOf s c)))) \<and>
   (injected s \<and> \<not> isBatchingUpdates s \<longrightarrow> enqueueUpdate P c s = strategyEnqueue P c s) \<and>
   (\<not> injected s \<longrightarrow> enqueueUpdate P c s = Throw InvariantViolation s)"
proof (intro conjI impI)
  assume "injected s \<and> isBatchingUpdates s"
  then show "\<exists>s'. runScript P (map EnqueueUpdate cs) s = Return s' \<and>
         dirtyComponents s' = dirtyComponents s @ cs \<and>
         updateBatchNumber s' = updateBatchNumber s \<and>
         (\<forall>c. batchNumberOf s' c =
                (if batchNumberOf s c = None \<and> c \<in> set cs then Some (updateBatchNumber s + 1)
                 else batchNumberOf s c))"
    using enqueueUpdates_batching [of s P cs] by blast
next
  assume "injected s \<and> \<not> isBatchingUpdates s"
  then show "enqueueUpdate P c s = strategyEnqueue P c s"
    by (simp add: enqueueUpdate_def ensureInjected_def)
next
  assume "\<not> injected s"
  then show "enqueueUpdate P c s = Throw InvariantViolation s"
    by (simp add: enqueueUpdate_def ensureInjected_def)
qed

lemma batchingState_simps [simp]:
  "dirtyComponents batchingState = []" "updateBatchNumber batchingState = 0"
  "injected batchingState" "isBatchingUpdates batchingState" "\<not> asapEnqueued batchingState"
  "trace batchingState = []" "instances batchingState = freshInstance"
  "asapCallbackQueue batchingState = CallbackQueue_new ()"
  "batchNumberOf batchingState c = None"
  by (simp_all add: batchingState_def batchNumberOf_def freshInstance_def injected_def)

theorem enqueueUpdate_appends_witness:
  "\<exists>s'. runScript quietProgram [EnqueueUpdate 5, EnqueueUpdate 2, EnqueueUpdate 5] batchingState = Return s' \<and>
      dirtyComponents s' = [5, 2, 5] \<and> batchNumberOf s' 5 = Some 1 \<and> batchNumberOf s' 2 = Some 1 \<and>
      batchNumberOf s' 9 = None"
  using enqueueUpdate_appends [of batchingState quietProgram "[5, 2, 5]"]
  by auto

subsection \<open>Rules for the reconcile pass\<close>

lemma performUpdateIfNecessary_post:
  assumes "batchNumberOf s c \<noteq> Some b \<Longrightarrow> Q (logEvent (Performed c b) s)"
    and "batchNumberOf s c = Some b \<Longrightarrow>
         post Q R (runScript P
            (nodeKind P c (logEvent (Delegated c (updateBatchNumber s)) (logEvent (Performed c b) s)))
            (setBatchNumber c None
               (logEvent (Delegated c (updateBatchNumber s)) (logEvent (Performed c b) s))))"
  shows "post Q R (performUpdateIfNecessary P c b s)"
  using assms by (simp add: performUpdateIfNecessary_def nodeKindPerformUpdate_def Let_def)

lemma requeueCallbacks_simps [simp]:
  "fst (requeueCallbacks st c (s, t)) = s"
  "dirtyComponentsLength (snd (requeueCallbacks st c (s, t))) = dirtyComponentsLength t"
  "callbackQueue (snd (requeueCallbacks st c (s, t))) =
     enqueueAll (map (\<lambda>cb. (cb, publicInstance (instances s c))) (orEmpty st)) (callbackQueue t)"
  by (simp_all add: requeueCallbacks_def orEmpty_def enqueueAll_def split: option.splits)

lemma requeueCallbacks_None [simp]: "requeueCallbacks None c w = w"
  by (cases w) (simp add: requeueCallbacks_def)

lemma updateLoop_unfold:
  "updateLoop P len i w =
     (if i < len then
        (if i < length (dirtyComponents (fst w)) then
           (case performUpdateIfNecessary P (dirtyComponents (fst w) ! i) (updateBatchNumber (fst w))
                   (setPendingCallbacks (dirtyComponents (fst w) ! i) None (fst w)) of
              Return s2 \<Rightarrow>
                updateLoop P len (Suc i)
                  (requeueCallbacks (pendingCallbacks (instances (fst w) (dirtyComponents (fst w) ! i)))
                     (dirtyComponents (fst w) ! i) (s2, snd w))
            | Throw e s2 \<Rightarrow> Throw e (s2, snd w)
            | OutOfFuel \<Rightarrow> OutOfFuel)
         else Throw TypeError w)
      else Return w)"
proof (cases w)
  case (Pair s t)
  show ?thesis unfolding Pair by (simp add: updateLoop.simps Let_def cong: outcome.case_cong)
qed

lemma updateLoop_rule:
  assumes step: "\<And>i s t. i < len \<Longrightarrow> i < length (dirtyComponents s) \<Longrightarrow> Inv i (s, t) \<Longrightarrow>
      post (\<lambda>s2. Inv (Suc i)
              (requeueCallbacks (pendingCallbacks (instances s (dirtyComponents s ! i)))
                 (dirtyComponents s ! i) (s2, t)))
           (\<lambda>s2. R (s2, t))
           (performUpdateIfNecessary P (dirtyComponents s ! i) (updateBatchNumber s)
              (setPendingCallbacks (dirtyComponents s ! i) None s))"
    and short: "\<And>i s t. i < len \<Longrightarrow> \<not> i < length (dirtyComponents s) \<Longrightarrow> Inv i (s, t) \<Longrightarrow> R (s, t)"
    and inv: "Inv i (s, t)" and le: "i \<le> len"
  shows "post (Inv len) R (updateLoop P len i (s, t))"
  using step short inv le
proof (induction P len i "(s, t)" arbitrary: s t rule: updateLoop.induct)
  case (1 P len i s t)
  show ?case
  proof (cases "i < len")
    case False
    with "1.prems"(4) have "i = len" by simp
    with "1.prems"(3) show ?thesis by (simp add: updateLoop.simps)
  next
    case True
    show ?thesis
    proof (cases "i < length (dirtyComponents s)")
      case False
      with True "1.prems"(2) [OF True False "1.prems"(3)] show ?thesis
        by (simp add: updateLoop.simps)
    next
      case lt: True
      let ?c = "dirtyComponents s ! i"
      let ?s1 = "setPendingCallbacks ?c None s"
      let ?st = "pendingCallbacks (instances s ?c)"
      note st = "1.prems"(1) [OF True lt "1.prems"(3)]
      show ?thesis
      proof (cases "performUpdateIfNecessary P ?c (updateBatchNumber s) ?s1")
        case (Return s2)
        obtain s3 t3 where r: "requeueCallbacks ?st ?c (s2, t) = (s3, t3)"
          by (cases "requeueCallbacks ?st ?c (s2, t)")
        from st Return r have inv': "Inv (Suc i) (s3, t3)" by simp
        have "post (Inv len) R (updateLoop P len (Suc i) (s3, t3))"
          using True inv' "1.prems"(1) "1.prems"(2)
          by (intro "1.hyps" [OF True lt refl refl refl _ r]) (simp_all add: Return)
        then show ?thesis
          using True lt Return r by (subst updateLoop.simps) (simp add: Let_def)
      next
        case (Throw e s2)
        with st True lt show ?thesis by (subst updateLoop.simps) (simp add: Let_def)
      next
        case OutOfFuel
        with True lt show ?thesis by (subst updateLoop.simps) (simp add: Let_def)
      qed
    qed
  qed
qed

lemma sortByMountOrder_simps [simp]:
  "dirtyComponents (sortByMountOrder s) = sort_key (mountOrderOf s) (dirtyComponents s)"
  "updateBatchNumber (sortByMountOrder s) = updateBatchNumber s"
  "asapCallbackQueue (sortByMountOrder s) = asapCallbackQueue s"
  "asapEnqueued (sortByMountOrder s) = asapEnqueued s"
  "batchingStrategyInjected (sortByMountOrder s) = batchingStrategyInjected s"
  "injected (sortByMountOrder s) = injected s"
  "isBatchingUpdates (sortByMountOrder s) = isBatchingUpdates s"
  "instances (sortByMountOrder s) = instances s"
  "flushTransactionPool (sortByMountOrder s) = flushTransactionPool s"
  "callbackQueuePool (sortByMountOrder s) = callbackQueuePool s"
  "reconcileTransactionPool (sortByMountOrder s) = reconcileTransactionPool s"
  "trace (sortByMountOrder s) = trace s"
  "batchNumberOf (sortByMountOrder s) = batchNumberOf s"
  by (simp_all add: sortByMountOrder_def mountOrderOf_def [abs_def] batchNumberOf_def fun_eq_iff)

lemma performed_simps [simp]:
  "performed [] = []"
  "performed (tr @ tr') = performed tr @ performed tr'"
  "performed (ev # tr) = performedOf ev @ performed tr"
  by (simp_all add: performed_def)

lemma mountOrderOf_simps [simp]:
  "mountOrderOf (logEvent ev s) = mountOrderOf s"
  "mountOrderOf (setBatchNumber c b s) = mountOrderOf s"
  "mountOrderOf (setPendingCallbacks c x s) = mountOrderOf s"
  "mountOrderOf (s\<lparr>dirtyComponents := d\<rparr>) = mountOrderOf s"
  "mountOrderOf (s\<lparr>updateBatchNumber := n\<rparr>) = mountOrderOf s"
  "mountOrderOf (s\<lparr>asapCallbackQueue := q\<rparr>) = mountOrderOf s"
  "mountOrderOf (s\<lparr>asapEnqueued := a\<rparr>) = mountOrderOf s"
  "mountOrderOf (s\<lparr>trace := tr\<rparr>) = mountOrderOf s"
  "mountOrderOf (sortByMountOrder s) = mountOrderOf s"
  by (simp_all add: mountOrderOf_def fun_eq_iff logEvent_def setBatchNumber_def
      setPendingCallbacks_def sortByMountOrder_def)

lemma passFrame_userCall:
  "passFrame g mo ds pf s \<Longrightarrow> post (passFrame g mo ds pf) (passFrame g mo ds pf) (runUserCall P u s)"
  by (cases u)
     (auto simp: passFrame_def runUserCall_def enqueueUpdate_batching asap_batching
           dest: arg_cong [where f = length])

lemma passFrame_script:
  "passFrame g mo ds pf s \<Longrightarrow> post (passFrame g mo ds pf) (passFrame g mo ds pf) (runScript P us s)"
  by (rule runScript_post [OF passFrame_userCall])

lemma passFrame_performUpdate:
  assumes "passFrame g mo ds pf s"
  shows "post (passFrame g mo ds (pf @ [c])) (passFrame g mo ds (pf @ [c]))
           (performUpdateIfNecessary P c b (setPendingCallbacks c None s))"
proof (rule performUpdateIfNecessary_post)
  show "passFrame g mo ds (pf @ [c]) (logEvent (Performed c b) (setPendingCallbacks c None s))"
    using assms by (simp add: passFrame_def)
next
  let ?s1 = "logEvent (Delegated c (updateBatchNumber (setPendingCallbacks c None s)))
               (logEvent (Performed c b) (setPendingCallbacks c None s))"
  have "passFrame g mo ds (pf @ [c]) (setBatchNumber c None ?s1)"
    using assms by (simp add: passFrame_def)
  then show "post (passFrame g mo ds (pf @ [c])) (passFrame g mo ds (pf @ [c]))
     (runScript P (nodeKind P c ?s1) (setBatchNumber c None ?s1))"
    by (rule passFrame_script)
qed

lemma reconcileTurn_frame:
  assumes "passFrame g mo ds pf s"
  shows "post (\<lambda>w. passFrame g mo ds (pf @ [c]) (fst w)) (\<lambda>w. passFrame g mo ds (pf @ [c]) (fst w))
           (reconcileTurn P c (s, t))"
  using passFrame_performUpdate [OF assms, of c P "updateBatchNumber s"]
  by (cases "performUpdateIfNecessary P c (updateBatchNumber s) (setPendingCallbacks c None s)")
     (simp_all add: reconcileTurn_def)

lemma reconcileInOrder_frame:
  assumes "passFrame g mo ds pf s"
  shows "post (\<lambda>w. passFrame g mo ds (pf @ cs) (fst w))
              (\<lambda>w. \<exists>k. passFrame g mo ds (pf @ take k cs) (fst w))
              (reconcileInOrder P cs (s, t))"
  using assms
proof (induction cs arbitrary: pf s t)
  case Nil
  then show ?case by simp
next
  case (Cons c cs)
  note turn = reconcileTurn_frame [OF Cons.prems, of c P t]
  show ?case
  proof (cases "reconcileTurn P c (s, t)")
    case (Return w)
    obtain s1 t1 where w: "w = (s1, t1)" by (cases w)
    from turn Return w have "passFrame g mo ds (pf @ [c]) s1" by simp
    from Cons.IH [OF this, of t1]
    have "post (\<lambda>w. passFrame g mo ds (pf @ c # cs) (fst w))
              (\<lambda>w. \<exists>k. passFrame g mo ds (pf @ take (Suc k) (c # cs)) (fst w))
              (reconcileInOrder P cs (s1, t1))"
      by simp
    then have "post (\<lambda>w. passFrame g mo ds (pf @ c # cs) (fst w))
              (\<lambda>w. \<exists>k. passFrame g mo ds (pf @ take k (c # cs)) (fst w))
              (reconcileInOrder P cs (s1, t1))"
      by (rule post_mono) blast+
    with Return w show ?thesis by simp
  next
    case (Throw e w)
    with turn have "passFrame g mo ds (pf @ take 1 (c # cs)) (fst w)" by simp
    then have "\<exists>k. passFrame g mo ds (pf @ take k (c # cs)) (fst w)" ..
    with Throw show ?thesis by simp
  next
    case OutOfFuel
    then show ?thesis by simp
  qed
qed

lemma updateLoop_inOrder:
  assumes "passFrame g mo ds pf s" "i \<le> length ds"
  shows "updateLoop P (length ds) i (s, t) = reconcileInOrder P (drop i ds) (s, t)"
  using assms
proof (induction "length ds - i" arbitrary: i pf s t)
  case 0
  then show ?case by (simp add: updateLoop_unfold)
next
  case (Suc n)
  then have i: "i < length ds" by simp
  from Suc.prems(1) have tk: "take (length ds) (dirtyComponents s) = ds"
    by (simp add: passFrame_def)
  from arg_cong [OF tk, of length] have len: "length ds \<le> length (dirtyComponents s)"
    by simp
  from tk i have c: "dirtyComponents s ! i = ds ! i"
    by (metis nth_take)
  let ?c = "ds ! i"
  have d: "drop i ds = ?c # drop (Suc i) ds"
    using i by (simp add: Cons_nth_drop_Suc)
  note pu = passFrame_performUpdate [OF Suc.prems(1), of ?c P "updateBatchNumber s"]
  show ?case
  proof (cases "performUpdateIfNecessary P ?c (updateBatchNumber s) (setPendingCallbacks ?c None s)")
    case (Return s2)
    obtain s3 t3 where r: "requeueCallbacks (pendingCallbacks (instances s ?c)) ?c (s2, t) = (s3, t3)"
      by (cases "requeueCallbacks (pendingCallbacks (instances s ?c)) ?c (s2, t)")
    from arg_cong [OF r, of fst] have s3: "s3 = s2" by simp
    from pu Return have "passFrame g mo ds (pf @ [?c]) s2" by simp
    from Suc.hyps(1) [OF _ this, of "Suc i" t3] Suc.hyps(2) i
    have "updateLoop P (length ds) (Suc i) (s2, t3) = reconcileInOrder P (drop (Suc i) ds) (s2, t3)"
      by simp
    with i len c Return r s3 show ?thesis
      by (subst updateLoop_unfold) (simp add: d reconcileTurn_def)
  next
    case (Throw e s2)
    with i len c show ?thesis
      by (subst updateLoop_unfold) (simp add: d reconcileTurn_def)
  next
    case OutOfFuel
    with i len c show ?thesis
      by (subst updateLoop_unfold) (simp add: d reconcileTurn_def)
  qed
qed

lemma runBatchedUpdates_inOrder:
  assumes "injected s" "isBatchingUpdates s"
  shows "runBatchedUpdates P (s, t) =
     (if dirtyComponentsLength t = Some (length (dirtyComponents s))
      then reconcileInOrder P (sort_key (mountOrderOf s) (dirtyComponents s))
             (s\<lparr>dirtyComponents := sort_key (mountOrderOf s) (dirtyComponents s),
                updateBatchNumber := updateBatchNumber s + 1\<rparr>, t)
      else Throw InvariantViolation (s, t))"
proof (cases "dirtyComponentsLength t = Some (length (dirtyComponents s))")
  case False
  then show ?thesis by (auto simp: runBatchedUpdates_def split: option.splits)
next
  case True
  let ?ds = "sort_key (mountOrderOf s) (dirtyComponents s)"
  let ?s0 = "(sortByMountOrder s)\<lparr>updateBatchNumber := updateBatchNumber s + 1\<rparr>"
  have e: "?s0 = s\<lparr>dirtyComponents := ?ds, updateBatchNumber := updateBatchNumber s + 1\<rparr>"
    by (simp add: sortByMountOrder_def mountOrderOf_def [abs_def])
  have "passFrame (updateBatchNumber s + 1) (mountOrderOf s) ?ds (performed (trace s)) ?s0"
    using assms by (simp add: passFrame_def)
  from updateLoop_inOrder [OF this, of 0 P t]
  have "updateLoop P (length ?ds) 0 (?s0, t) = reconcileInOrder P ?ds (?s0, t)" by simp
  with True show ?thesis
    by (simp add: runBatchedUpdates_def) (simp add: sortByMountOrder_def mountOrderOf_def [abs_def])
qed

lemma runBatchedUpdates_frame:
  assumes "injected s" "isBatchingUpdates s"
  shows "post (\<lambda>w. passFrame (updateBatchNumber s + 1) (mountOrderOf s)
                     (sort_key (mountOrderOf s) (dirtyComponents s))
                     (performed (trace s) @ sort_key (mountOrderOf s) (dirtyComponents s)) (fst w))
              (\<lambda>w. \<exists>k. performed (trace (fst w)) =
                     performed (trace s) @ take k (sort_key (mountOrderOf s) (dirtyComponents s)))
              (runBatchedUpdates P (s, t))"
proof (cases "dirtyComponentsLength t = Some (length (dirtyComponents s))")
  case False
  have "performed (trace s) = performed (trace s) @ take 0 (sort_key (mountOrderOf s) (dirtyComponents s))"
    by simp
  then have "\<exists>k. performed (trace s) =
      performed (trace s) @ take k (sort_key (mountOrderOf s) (dirtyComponents s))" ..
  with False show ?thesis
    by (simp add: runBatchedUpdates_inOrder [OF assms])
next
  case True
  let ?ds = "sort_key (mountOrderOf s) (dirtyComponents s)"
  let ?s0 = "s\<lparr>dirtyComponents := ?ds, updateBatchNumber := updateBatchNumber s + 1\<rparr>"
  have "passFrame (updateBatchNumber s + 1) (mountOrderOf s) ?ds (performed (trace s)) ?s0"
    using assms by (simp add: passFrame_def)
  from reconcileInOrder_frame [OF this, of ?ds P t]
  have "post (\<lambda>w. passFrame (updateBatchNumber s + 1) (mountOrderOf s) ?ds
                     (performed (trace s) @ ?ds) (fst w))
              (\<lambda>w. \<exists>k. performed (trace (fst w)) = performed (trace s) @ take k ?ds)
              (reconcileInOrder P ?ds (?s0, t))"
    by (rule post_mono) (auto simp: passFrame_def)
  with True show ?thesis by (simp add: runBatchedUpdates_inOrder [OF assms])
qed

text \<open>
  Claim C2. Inside a batching scope, \<^verbatim>\<open>runBatchedUpdates\<close> does what
  the reference does on the array sorted by \<^verbatim>\<open>_mountOrder\<close>, whatever the order the
  instances were enqueued in: it calls \<^verbatim>\<open>ReactReconciler.performUpdateIfNecessary\<close> on one
  instance after the other in the order of the sorted array, with the batch number
  counted up by one, and fails with the invariant when the length the transaction stored
  is not that of the array. When it returns, the calls recorded are those on the whole
  sorted array, the array begins with its former entries in sorted order, the counter is
  one higher and no mount order has changed; when it throws, the calls are those on a
  first part of the sorted array. The sorted array has the entries of the array, each as
  often as the array has it, in ascending mount order, which is strictly ascending when
  the mount orders of the entries are distinct.
\<close>

theorem runBatchedUpdates_ascending:
  "(injected s \<and> isBatchingUpdates s \<longrightarrow>
      runBatchedUpdates P (s, t) =
        (if dirtyComponentsLength t = Some (length (dirtyComponents s))
         then reconcileInOrder P (sort_key (mountOrderOf s) (dirtyComponents s))
                (s\<lparr>dirtyComponents := sort_key (mountOrderOf s) (dirtyComponents s),
                   updateBatchNumber := updateBatchNumber s + 1\<rparr>, t)
         else Throw InvariantViolation (s, t)) \<and>
      (\<forall>s' t'. runBatchedUpdates P (s, t) = Return (s', t') \<longrightarrow>
         performed (trace s') =
           performed (trace s) @ sort_key (mountOrderOf s) (dirtyComponents s) \<and>
         take (length (dirtyComponents s)) (dirtyComponents s') =
           sort_key (mountOrderOf s) (dirtyComponents s) \<and>
         updateBatchNumber s' = updateBatchNumber s + 1 \<and>
         mountOrderOf s' = mountOrderOf s) \<and>
      (\<forall>e s' t'. runBatchedUpdates P (s, t) = Throw e (s', t') \<longrightarrow>
         (\<exists>k. performed (trace s') =
           performed (trace s) @ take k (sort_key (mountOrderOf s) (dirtyComponents s))))) \<and>
   sorted (map (mountOrderOf s) (sort_key (mountOrderOf s) (dirtyComponents s))) \<and>
   (distinct (map (mountOrderOf s) (dirtyComponents s)) \<longrightarrow>
      sorted_wrt (<) (map (mountOrderOf s) (sort_key (mountOrderOf s) (dirtyComponents s)))) \<and>
   mset (sort_key (mountOrderOf s) (dirtyComponents s)) = mset (dirtyComponents s)"
proof -
  let ?ds = "sort_key (mountOrderOf s) (dirtyComponents s)"
  have A: "injected s \<and> isBatchingUpdates s \<longrightarrow>
      runBatchedUpdates P (s, t) =
        (if dirtyComponentsLength t = Some (length (dirtyComponents s))
         then reconcileInOrder P ?ds
                (s\<lparr>dirtyComponents := ?ds, updateBatchNumber := updateBatchNumber s + 1\<rparr>, t)
         else Throw InvariantViolation (s, t)) \<and>
      (\<forall>s' t'. runBatchedUpdates P (s, t) = Return (s', t') \<longrightarrow>
         performed (trace s') = performed (trace s) @ ?ds \<and>
         take (length (dirtyComponents s)) (dirtyComponents s') = ?ds \<and>
         updateBatchNumber s' = updateBatchNumber s + 1 \<and>
         mountOrderOf s' = mountOrderOf s) \<and>
      (\<forall>e s' t'. runBatchedUpdates P (s, t) = Throw e (s', t') \<longrightarrow>
         (\<exists>k. performed (trace s') = performed (trace s) @ take k ?ds))"
  proof (intro impI conjI allI)
    assume a: "injected s \<and> isBatchingUpdates s"
    then show "runBatchedUpdates P (s, t) =
        (if dirtyComponentsLength t = Some (length (dirtyComponents s))
         then reconcileInOrder P ?ds
                (s\<lparr>dirtyComponents := ?ds, updateBatchNumber := updateBatchNumber s + 1\<rparr>, t)
         else Throw InvariantViolation (s, t))"
      by (simp add: runBatchedUpdates_inOrder)
    note f = runBatchedUpdates_frame [of s P t, OF conjunct1 [OF a] conjunct2 [OF a]]
    {
      fix s' t'
      assume r: "runBatchedUpdates P (s, t) = Return (s', t')"
      with f have p: "passFrame (updateBatchNumber s + 1) (mountOrderOf s) ?ds
                     (performed (trace s) @ ?ds) s'" by simp
      from p show "performed (trace s') = performed (trace s) @ ?ds"
        by (simp add: passFrame_def)
      from p show "take (length (dirtyComponents s)) (dirtyComponents s') = ?ds"
        by (simp add: passFrame_def)
      from p show "updateBatchNumber s' = updateBatchNumber s + 1"
        by (simp add: passFrame_def)
      from p show "mountOrderOf s' = mountOrderOf s"
        by (simp add: passFrame_def)
    }
    fix e s' t'
    assume "runBatchedUpdates P (s, t) = Throw e (s', t')"
    with f show "\<exists>k. performed (trace s') = performed (trace s) @ take k ?ds" by simp
  qed
  have B: "sorted (map (mountOrderOf s) ?ds)" by (rule sorted_sort_key)
  have C: "distinct (map (mountOrderOf s) (dirtyComponents s)) \<longrightarrow>
      sorted_wrt (<) (map (mountOrderOf s) ?ds)"
  proof
    assume "distinct (map (mountOrderOf s) (dirtyComponents s))"
    then have "distinct (map (mountOrderOf s) ?ds)" by (simp add: distinct_map)
    with B show "sorted_wrt (<) (map (mountOrderOf s) ?ds)"
      by (simp add: strict_sorted_iff)
  qed
  have D: "mset ?ds = mset (dirtyComponents s)" by simp
  from A B C D show ?thesis by - (intro conjI; assumption)
qed

lemma threeDirty_simps [simp]:
  "dirtyComponents threeDirty = [5, 2, 9]" "updateBatchNumber threeDirty = 0"
  "injected threeDirty" "isBatchingUpdates threeDirty" "trace threeDirty = []"
  "mountOrderOf threeDirty c = int c"
  "batchNumberOf threeDirty c = (if c \<in> {5, 2, 9} then Some 1 else None)"
  by (simp_all add: threeDirty_def mountOrderOf_def batchNumberOf_def freshInstance_def
      batchingState_def injected_def)

lemma quietProgram_simps [simp]:
  "nodeKind quietProgram c s = []"
  "callbackCode quietProgram cb ctx s = []"
  "hostInitialize quietProgram s = []" "hostClose quietProgram s = []"
  by (simp_all add: quietProgram_def)

lemma delegations_simps [simp]:
  "delegations [] = []"
  "delegations (tr @ tr') = delegations tr @ delegations tr'"
  "delegations (ev # tr) = delegationsOf ev @ delegations tr"
  by (simp_all add: delegations_def)

theorem runBatchedUpdates_ascending_witness:
  "injected threeDirty \<and> isBatchingUpdates threeDirty \<and>
   distinct (map (mountOrderOf threeDirty) (dirtyComponents threeDirty)) \<and>
   (\<exists>s' t'. runBatchedUpdates markingProgram (threeDirty, newFlushTransaction (Some 3)) = Return (s', t') \<and>
      performed (trace s') = [2, 5, 9] \<and>
      take 3 (dirtyComponents s') = [2, 5, 9] \<and>
      updateBatchNumber s' = 1 \<and>
      delegations (trace s') = [(2, 1), (5, 1), (9, 1)] \<and>
      asapCallbackQueue s' = enqueueAll [(2, 2), (5, 5), (9, 9)] (CallbackQueue_new ())) \<and>
   sorted_wrt (<) (map (mountOrderOf threeDirty) [2, 5, 9])"
proof -
  let ?r = "runBatchedUpdates markingProgram (threeDirty, newFlushTransaction (Some 3))"
  have "returned ?r" by code_simp
  then obtain s' t' where r: "?r = Return (s', t')"
    by (cases ?r) (auto simp: returned_def)
  have "map_option (\<lambda>w. delegations (trace (fst w))) (finalState ?r) = Some [(2, 1), (5, 1), (9, 1)]"
    by code_simp
  with r have d: "delegations (trace s') = [(2, 1), (5, 1), (9, 1)]"
    by (simp add: finalState_def)
  have "map_option (\<lambda>w. asapCallbackQueue (fst w)) (finalState ?r) =
          Some (enqueueAll [(2, 2), (5, 5), (9, 9)] (CallbackQueue_new ()))"
    by code_simp
  with r have q: "asapCallbackQueue s' = enqueueAll [(2, 2), (5, 5), (9, 9)] (CallbackQueue_new ())"
    by (simp add: finalState_def)
  have di: "distinct (map (mountOrderOf threeDirty) (dirtyComponents threeDirty))" by simp
  have so: "sort_key (mountOrderOf threeDirty) (dirtyComponents threeDirty) = [2, 5, 9]"
    by (simp add: mountOrderOf_def [abs_def] threeDirty_def freshInstance_def)
  note t = runBatchedUpdates_ascending [of threeDirty markingProgram "newFlushTransaction (Some 3)"]
  from t r have "performed (trace s') = [2, 5, 9] \<and> take 3 (dirtyComponents s') = [2, 5, 9] \<and>
      updateBatchNumber s' = 1"
    unfolding so by (simp add: numeral_3_eq_3)
  moreover from t di have "sorted_wrt (<) (map (mountOrderOf threeDirty) [2, 5, 9])"
    unfolding so by blast
  ultimately show ?thesis using r d q di by simp
qed

subsection \<open>Rules for Transaction.perform\<close>

lemma initializeAll_post:
  assumes "\<And>w s. w \<in> set ws \<Longrightarrow> I s \<Longrightarrow> post I I (initialize w s)" and "I s"
  shows "post I I (snd (initializeAll ws s))"
  using assms
proof (induction ws arbitrary: s)
  case Nil
  then show ?case by simp
next
  case (Cons w ws)
  have h: "post I I (initialize w s)" using Cons.prems by simp
  show ?case
  proof (cases "initialize w s")
    case (Return s')
    with h have "I s'" by simp
    then have "post I I (snd (initializeAll ws s'))"
      using Cons.prems(1) by (intro Cons.IH) simp_all
    with Return show ?thesis by (auto split: prod.splits)
  next
    case (Throw e s')
    with h show ?thesis by simp
  next
    case OutOfFuel
    then show ?thesis by simp
  qed
qed

lemma closeAll_post:
  assumes "\<And>w s. w \<in> set ws \<Longrightarrow> I s \<Longrightarrow> post I I (close w s)" and "I s"
  shows "post I I (closeAll ws pending s)"
  using assms
proof (induction ws arbitrary: s pending)
  case Nil
  then show ?case by (simp split: option.splits)
next
  case (Cons w ws)
  have h: "post I I (close w s)" using Cons.prems by simp
  show ?case
  proof (cases "close w s")
    case (Return s')
    with h have "I s'" by simp
    then have "post I I (closeAll ws pending s')"
      using Cons.prems(1) by (intro Cons.IH) simp_all
    with Return show ?thesis by simp
  next
    case (Throw e s')
    with h have "I s'" by simp
    then have "post I I (closeAll ws (firstError pending e) s')"
      using Cons.prems(1) by (intro Cons.IH) simp_all
    with Throw show ?thesis by simp
  next
    case OutOfFuel
    then show ?thesis by simp
  qed
qed

lemma perform_post:
  assumes i: "\<And>w s. w \<in> set ws \<Longrightarrow> I s \<Longrightarrow> post I I (initialize w s)"
    and c: "\<And>w s. w \<in> set ws \<Longrightarrow> I s \<Longrightarrow> post I I (close w s)"
    and m: "\<And>s. I s \<Longrightarrow> post I I (wrapped s)"
    and s: "I s"
  shows "post I I (perform ws wrapped s)"
proof -
  obtain k r where kr: "initializeAll ws s = (k, r)" by (cases "initializeAll ws s")
  from initializeAll_post [of ws I s, OF i s] kr have r: "post I I r" by simp
  show ?thesis
  proof (cases r)
    case (Return s1)
    with r have s1: "I s1" by simp
    show ?thesis
    proof (cases "wrapped s1")
      case (Return s2)
      with m [OF s1] have "I s2" by simp
      then have "post I I (closeAll ws None s2)" by (intro closeAll_post c)
      with kr \<open>r = Return s1\<close> Return show ?thesis by (simp add: perform_def)
    next
      case (Throw e s2)
      with m [OF s1] have "I s2" by simp
      then have "post I I (closeAll ws (Some e) s2)" by (intro closeAll_post c)
      with kr \<open>r = Return s1\<close> Throw show ?thesis by (simp add: perform_def)
    next
      case OutOfFuel
      with kr \<open>r = Return s1\<close> show ?thesis by (simp add: perform_def)
    qed
  next
    case (Throw e s1)
    with r have "I s1" by simp
    then have "post I I (closeAll (take k ws) (Some e) s1)"
      by (intro closeAll_post c) (auto dest: in_set_takeD)
    with kr Throw show ?thesis by (simp add: perform_def)
  next
    case OutOfFuel
    with kr show ?thesis by (simp add: perform_def)
  qed
qed

lemma closeAll_Return:
  "closeAll ws pending s = Return s' \<Longrightarrow> pending = None"
proof (induction ws arbitrary: s pending)
  case Nil
  then show ?case by (simp split: option.splits)
next
  case (Cons w ws)
  then show ?case
    by (cases "close w s") (auto simp: firstError_def split: option.splits)
qed

lemma perform_one_Return:
  "perform [w] wrapped s = Return s' \<longleftrightarrow>
     (\<exists>a b. initialize w s = Return a \<and> wrapped a = Return b \<and> close w b = Return s')"
  by (auto simp: perform_def firstError_def split: outcome.splits prod.splits option.splits)

lemma perform_two_Return:
  "perform [w1, w2] wrapped s = Return s' \<longleftrightarrow>
     (\<exists>a b c d. initialize w1 s = Return a \<and> initialize w2 a = Return b \<and> wrapped b = Return c \<and>
        close w1 c = Return d \<and> close w2 d = Return s')"
  by (auto simp: perform_def firstError_def split: outcome.splits prod.splits option.splits)

lemma stable_script:
  "passStable P I \<Longrightarrow> I s \<Longrightarrow> post I I (runScript P us s)"
  by (rule runScript_post) (simp_all add: passStable_def)

lemma stable_performUpdate:
  assumes "passStable P I" "I s"
  shows "post I I (performUpdateIfNecessary P c (updateBatchNumber s) s)"
proof (rule performUpdateIfNecessary_post)
  from assms show p: "I (logEvent (Performed c (updateBatchNumber s)) s)"
    unfolding passStable_def by blast
  let ?s0 = "logEvent (Performed c (updateBatchNumber s)) s"
  assume "batchNumberOf s c = Some (updateBatchNumber s)"
  then have "batchNumberOf ?s0 c = Some (updateBatchNumber ?s0)" by simp
  with assms(1) p have "I (setBatchNumber c None (logEvent (Delegated c (updateBatchNumber ?s0)) ?s0))"
    unfolding passStable_def by blast
  then have "I (setBatchNumber c None (logEvent (Delegated c (updateBatchNumber s)) ?s0))"
    by simp
  then show "post I I
     (runScript P (nodeKind P c (logEvent (Delegated c (updateBatchNumber s)) ?s0))
       (setBatchNumber c None (logEvent (Delegated c (updateBatchNumber s)) ?s0)))"
    by (rule stable_script [OF assms(1)])
qed

lemma stable_updateLoop:
  assumes st: "passStable P I" and s: "I s" and le: "i \<le> len"
  shows "post (\<lambda>w. I (fst w)) (\<lambda>w. I (fst w)) (updateLoop P len i (s, t))"
proof (rule updateLoop_rule [where Inv = "\<lambda>i w. I (fst w)"])
  show "I (fst (s, t))" using s by simp
  show "i \<le> len" by fact
next
  fix i :: nat and s :: scheduler and t :: flushTransaction
  assume "I (fst (s, t))"
  then show "I (fst (s, t))" .
next
  fix i :: nat and s :: scheduler and t :: flushTransaction
  let ?c = "dirtyComponents s ! i"
  let ?s1 = "setPendingCallbacks ?c None s"
  assume "I (fst (s, t))"
  then have "I ?s1" using st unfolding passStable_def by simp
  from stable_performUpdate [OF st this, of ?c]
  have "post I I (performUpdateIfNecessary P ?c (updateBatchNumber s) ?s1)" by simp
  then show "post (\<lambda>s2. I (fst (requeueCallbacks (pendingCallbacks (instances s ?c)) ?c (s2, t))))
           (\<lambda>s2. I (fst (s2, t)))
           (performUpdateIfNecessary P ?c (updateBatchNumber s) ?s1)"
    by (elim post_mono) simp_all
qed

lemma stable_runBatchedUpdates:
  assumes st: "passStable P I" and s: "I s"
  shows "post (\<lambda>w. I (fst w)) (\<lambda>w. I (fst w)) (runBatchedUpdates P (s, t))"
proof -
  have "I ((sortByMountOrder s)\<lparr>updateBatchNumber := updateBatchNumber s + 1\<rparr>)"
    using st s unfolding passStable_def by blast
  from stable_updateLoop [OF st this, of 0]
  show ?thesis using s
    by (simp add: runBatchedUpdates_def split: option.splits)
qed

subsection \<open>Rules for notification\<close>

lemma notifyLoop_post:
  assumes call: "\<And>cb ctx w. I w \<Longrightarrow> post I I (call cb ctx a w)" and "I w"
  shows "post (\<lambda>wl. I (fst wl)) (\<lambda>wl. I (fst wl)) (notifyLoop call a cbs ctxs i (w, log))"
  using assms
proof (induction call a cbs ctxs i "(w, log)" arbitrary: w log rule: notifyLoop.induct)
  case (1 call a cbs ctxs i w log)
  show ?case
  proof (cases "i < length cbs")
    case False
    with "1.prems"(2) show ?thesis by (simp add: notifyLoop.simps)
  next
    case True
    show ?thesis
    proof (cases "slot cbs i")
      case None
      with True "1.prems"(2) show ?thesis by (simp add: notifyLoop.simps)
    next
      case (Some cb)
      note c = "1.prems"(1) [OF "1.prems"(2), of cb "slot ctxs i"]
      show ?thesis
      proof (cases "call cb (slot ctxs i) a w")
        case (Return w')
        with c have "I w'" by simp
        from "1.hyps" [OF True Some Return "1.prems"(1) this]
        show ?thesis
          using True Some Return by (subst notifyLoop.simps) simp
      next
        case (Throw e w')
        with c True Some show ?thesis by (subst notifyLoop.simps) simp
      next
        case OutOfFuel
        with True Some show ?thesis by (subst notifyLoop.simps) simp
      qed
    qed
  qed
qed

lemma notifyAll_post:
  assumes call: "\<And>cb ctx w. I (snd w) \<Longrightarrow> post (\<lambda>w. I (snd w)) (\<lambda>w. I (snd w)) (call cb ctx (arg q) w)"
    and "I s"
  shows "post (\<lambda>wl. I (snd (fst wl))) (\<lambda>wl. I (snd (fst wl))) (notifyAll call ((q, s), log))"
proof -
  have "post (\<lambda>wl. I (snd (fst wl))) (\<lambda>wl. I (snd (fst wl)))
          (notifyLoop call (arg q) cbs ctxs 0 ((q\<lparr>callbacks := None, contexts := None\<rparr>, s), log))"
    for cbs ctxs
    using notifyLoop_post [where I = "\<lambda>w. I (snd w)" and call = call and a = "arg q"
        and w = "(q\<lparr>callbacks := None, contexts := None\<rparr>, s)"] call assms(2)
    by simp
  then show ?thesis
    using assms(2) by (simp add: notifyAll_def split: option.splits)
qed

lemma callCallback_post:
  assumes "\<And>s. I s \<Longrightarrow> I (logEvent (mk cb ctx) s)"
    and "\<And>us s. I s \<Longrightarrow> post I I (runScript P us s)"
    and "I (snd w)"
  shows "post (\<lambda>w. I (snd w)) (\<lambda>w. I (snd w)) (callCallback P mk cb ctx a w)"
proof -
  obtain q s where w: "w = (q, s)" by (cases w)
  with assms have "post I I (runScript P (callbackCode P cb ctx (logEvent (mk cb ctx) s))
                (logEvent (mk cb ctx) s))" by simp
  then show ?thesis
    unfolding w callCallback_def
    by (cases "runScript P (callbackCode P cb ctx (logEvent (mk cb ctx) s)) (logEvent (mk cb ctx) s)")
       simp_all
qed

lemma notifyQueue_post:
  assumes "\<And>cb ctx s. I s \<Longrightarrow> I (logEvent (mk cb ctx) s)"
    and "\<And>us s. I s \<Longrightarrow> post I I (runScript P us s)"
    and "I s"
  shows "post (\<lambda>w. I (snd w)) (\<lambda>w. I (snd w)) (notifyQueue P mk q s)"
proof -
  have "post (\<lambda>wl. I (snd (fst wl))) (\<lambda>wl. I (snd (fst wl)))
          (notifyAll (callCallback P mk) ((q, s), []))"
    by (rule notifyAll_post [OF callCallback_post]) (simp_all add: assms)
  then show ?thesis
    by (cases "notifyAll (callCallback P mk) ((q, s), [])")
       (auto simp: notifyQueue_def split: prod.splits)
qed

lemma stable_notifyQueue:
  "passStable P I \<Longrightarrow> mk = Notified \<or> mk = AsapNotified \<Longrightarrow> I s \<Longrightarrow>
   post (\<lambda>w. I (snd w)) (\<lambda>w. I (snd w)) (notifyQueue P mk q s)"
  by (rule notifyQueue_post) (auto simp: stable_script passStable_def)

subsection \<open>The turn of the loop that reconciles\<close>

text \<open>What a \<^verbatim>\<open>perform\<close> of the flush transaction that returns has done, step by step.\<close>

lemma flushPerform_Return:
  assumes "flushPerform P flush (s, t) = Return (s', t')"
  shows "\<exists>s1 s2 t2 s3 s4 q.
     runScript P (hostInitialize P s) s = Return s1 \<and>
     runBatchedUpdates P
       (s1, t\<lparr>dirtyComponentsLength := Some (length (dirtyComponents s)),
               callbackQueue := reset (callbackQueue t)\<rparr>) = Return (s2, t2) \<and>
     runScript P (hostClose P s2) s2 = Return s3 \<and>
     (if dirtyComponentsLength t2 \<noteq> Some (length (dirtyComponents s3))
      then flush (s3\<lparr>dirtyComponents :=
                        spliceFront (dirtyComponentsLength t2) (dirtyComponents s3)\<rparr>) = Return s4
      else s4 = s3\<lparr>dirtyComponents := []\<rparr>) \<and>
     notifyQueue P Notified (callbackQueue t2) s4 = Return (q, s') \<and>
     t' = t2\<lparr>callbackQueue := q\<rparr>"
proof -
  from assms obtain a b c d where
    1: "initialize (NESTED_UPDATES flush) (s, t) = Return a"
    and 2: "initialize (UPDATE_QUEUEING P) a = Return b"
    and 3: "reconcilePerform P (runBatchedUpdates P) b = Return c"
    and 4: "close (NESTED_UPDATES flush) c = Return d"
    and 5: "close (UPDATE_QUEUEING P) d = Return (s', t')"
    unfolding flushPerform_def TRANSACTION_WRAPPERS_def perform_two_Return by blast
  from 1 2 have b: "b = (s, t\<lparr>dirtyComponentsLength := Some (length (dirtyComponents s)),
               callbackQueue := reset (callbackQueue t)\<rparr>)"
    by (auto simp: NESTED_UPDATES_def UPDATE_QUEUEING_def)
  from 3 obtain x y where
    6: "initialize (hostWrapper P) b = Return x"
    and 7: "runBatchedUpdates P x = Return y"
    and 8: "close (hostWrapper P) y = Return c"
    unfolding reconcilePerform_def perform_one_Return by blast
  from 6 b obtain s1 where s1: "runScript P (hostInitialize P s) s = Return s1"
    "x = (s1, t\<lparr>dirtyComponentsLength := Some (length (dirtyComponents s)),
               callbackQueue := reset (callbackQueue t)\<rparr>)"
    by (auto simp: hostWrapper_def onScheduler_Return)
  obtain s2 t2 where y: "y = (s2, t2)" by (cases y)
  from 8 y obtain s3 where s3: "runScript P (hostClose P s2) s2 = Return s3" "c = (s3, t2)"
    by (auto simp: hostWrapper_def onScheduler_Return)
  from 4 s3 obtain s4 where s4: "d = (s4, t2)"
    "if dirtyComponentsLength t2 \<noteq> Some (length (dirtyComponents s3))
      then flush (s3\<lparr>dirtyComponents :=
                        spliceFront (dirtyComponentsLength t2) (dirtyComponents s3)\<rparr>) = Return s4
      else s4 = s3\<lparr>dirtyComponents := []\<rparr>"
    by (auto simp: NESTED_UPDATES_def onScheduler_Return split: if_splits)
  from 5 s4 obtain q where q: "notifyQueue P Notified (callbackQueue t2) s4 = Return (q, s')"
    "t' = t2\<lparr>callbackQueue := q\<rparr>"
    by (auto simp: UPDATE_QUEUEING_def split: outcome.splits prod.splits)
  from s1 7 y s3 s4 q show ?thesis by blast
qed

subsection \<open>Invariants of the whole drain\<close>

lemma stable_hostWrapper:
  assumes "passStable P I" "I (fst w)"
  shows "post (\<lambda>w. I (fst w)) (\<lambda>w. I (fst w)) (initialize (hostWrapper P) w)"
    and "post (\<lambda>w. I (fst w)) (\<lambda>w. I (fst w)) (close (hostWrapper P) w)"
proof -
  obtain s t where w: "w = (s, t)" by (cases w)
  show "post (\<lambda>w. I (fst w)) (\<lambda>w. I (fst w)) (initialize (hostWrapper P) w)"
    unfolding w hostWrapper_def using assms stable_script [OF assms(1), of s "hostInitialize P s"]
    by (auto simp: w intro!: post_onScheduler)
  show "post (\<lambda>w. I (fst w)) (\<lambda>w. I (fst w)) (close (hostWrapper P) w)"
    unfolding w hostWrapper_def using assms stable_script [OF assms(1), of s "hostClose P s"]
    by (auto simp: w intro!: post_onScheduler)
qed

lemma stable_reconcilePerform:
  assumes "passStable P I" "I (fst w)"
  shows "post (\<lambda>w. I (fst w)) (\<lambda>w. I (fst w)) (reconcilePerform P (runBatchedUpdates P) w)"
  unfolding reconcilePerform_def
proof (rule perform_post [where I = "\<lambda>w. I (fst w)"])
  show "I (fst w)" by fact
next
  fix x and w :: flushState
  assume "x \<in> set [hostWrapper P]" "I (fst w)"
  then show "post (\<lambda>w. I (fst w)) (\<lambda>w. I (fst w)) (initialize x w)"
    "post (\<lambda>w. I (fst w)) (\<lambda>w. I (fst w)) (close x w)"
    using stable_hostWrapper [OF assms(1)] by simp_all
next
  fix w :: flushState
  assume "I (fst w)"
  then show "post (\<lambda>w. I (fst w)) (\<lambda>w. I (fst w)) (runBatchedUpdates P w)"
    using stable_runBatchedUpdates [OF assms(1), of "fst w" "snd w"] by simp
qed

lemma stable_NESTED_UPDATES:
  assumes d: "\<And>s d. I s \<Longrightarrow> I (s\<lparr>dirtyComponents := d\<rparr>)"
    and f: "\<And>s. I s \<Longrightarrow> post I I (flush s)"
    and w: "I (fst w)"
  shows "post (\<lambda>w. I (fst w)) (\<lambda>w. I (fst w)) (initialize (NESTED_UPDATES flush) w)"
    and "post (\<lambda>w. I (fst w)) (\<lambda>w. I (fst w)) (close (NESTED_UPDATES flush) w)"
proof -
  obtain s t where p: "w = (s, t)" by (cases w)
  show "post (\<lambda>w. I (fst w)) (\<lambda>w. I (fst w)) (initialize (NESTED_UPDATES flush) w)"
    using w by (simp add: p NESTED_UPDATES_def)
  have "post (\<lambda>w. I (fst w)) (\<lambda>w. I (fst w))
          (onScheduler flush (s\<lparr>dirtyComponents := x\<rparr>, t))" for x
    using f [OF d, of s x] w by (intro post_onScheduler) (simp add: p)
  then show "post (\<lambda>w. I (fst w)) (\<lambda>w. I (fst w)) (close (NESTED_UPDATES flush) w)"
    using w d by (simp add: p NESTED_UPDATES_def)
qed

lemma stable_UPDATE_QUEUEING:
  assumes "passStable P I" "I (fst w)"
  shows "post (\<lambda>w. I (fst w)) (\<lambda>w. I (fst w)) (initialize (UPDATE_QUEUEING P) w)"
    and "post (\<lambda>w. I (fst w)) (\<lambda>w. I (fst w)) (close (UPDATE_QUEUEING P) w)"
proof -
  obtain s t where p: "w = (s, t)" by (cases w)
  show "post (\<lambda>w. I (fst w)) (\<lambda>w. I (fst w)) (initialize (UPDATE_QUEUEING P) w)"
    using assms by (simp add: p UPDATE_QUEUEING_def)
  from stable_notifyQueue [OF assms(1), of Notified s "callbackQueue t"] assms(2)
  show "post (\<lambda>w. I (fst w)) (\<lambda>w. I (fst w)) (close (UPDATE_QUEUEING P) w)"
    by (cases "notifyQueue P Notified (callbackQueue t) s")
       (auto simp: p UPDATE_QUEUEING_def split: prod.splits)
qed

lemma stable_flushPerform:
  assumes st: "drainStable P I"
    and f: "\<And>s. I s \<Longrightarrow> post I I (flush s)"
    and w: "I (fst w)"
  shows "post (\<lambda>w. I (fst w)) (\<lambda>w. I (fst w)) (flushPerform P flush w)"
  unfolding flushPerform_def TRANSACTION_WRAPPERS_def
proof (rule perform_post [where I = "\<lambda>w. I (fst w)"])
  show "I (fst w)" by fact
next
  from st have ps: "passStable P I" and d: "\<And>s d. I s \<Longrightarrow> I (s\<lparr>dirtyComponents := d\<rparr>)"
    by (simp_all add: drainStable_def)
  {
    fix x and w :: flushState
    assume x: "x \<in> set [NESTED_UPDATES flush, UPDATE_QUEUEING P]" and w: "I (fst w)"
    show "post (\<lambda>w. I (fst w)) (\<lambda>w. I (fst w)) (initialize x w)"
      using x stable_NESTED_UPDATES(1) [of I flush w, OF d f w] stable_UPDATE_QUEUEING(1) [OF ps w]
      by auto
    show "post (\<lambda>w. I (fst w)) (\<lambda>w. I (fst w)) (close x w)"
      using x stable_NESTED_UPDATES(2) [of I flush w, OF d f w] stable_UPDATE_QUEUEING(2) [OF ps w]
      by auto
  }
  fix w :: flushState
  assume "I (fst w)"
  then show "post (\<lambda>w. I (fst w)) (\<lambda>w. I (fst w)) (reconcilePerform P (runBatchedUpdates P) w)"
    by (rule stable_reconcilePerform [OF ps])
qed

lemma stable_flushPass:
  assumes st: "drainStable P I"
    and f: "\<And>s. I s \<Longrightarrow> post I I (flush s)"
    and s: "I s"
  shows "post I I (flushPass P flush s)"
proof -
  have g: "I (fst (getPooledFlushTransaction s))"
    using st s unfolding drainStable_def getPooledFlushTransaction_def by simp
  have r: "I (releaseFlushTransaction w)" if "I (fst w)" for w
  proof -
    obtain a t where w: "w = (a, t)" by (cases w)
    have "releaseFlushTransaction w =
        a\<lparr>flushTransactionPool := release (flushTransactionPool a),
          callbackQueuePool := release (callbackQueuePool a),
          reconcileTransactionPool := release (reconcileTransactionPool a)\<rparr>"
      by (simp add: w releaseFlushTransaction_def)
    moreover have "I a" using that w by simp
    ultimately show ?thesis using st unfolding drainStable_def by metis
  qed
  have "post (\<lambda>w. I (fst w)) (\<lambda>w. I (fst w)) (flushPerform P flush (getPooledFlushTransaction s))"
    by (rule stable_flushPerform [OF st f g])
  with r show ?thesis
    by (cases "flushPerform P flush (getPooledFlushTransaction s)") (simp_all add: flushPass_def)
qed

lemma stable_asapPass:
  assumes st: "drainStable P I" and s: "I s"
  shows "post I I (asapPass P s)"
proof -
  let ?s1 = "s\<lparr>asapEnqueued := False, asapCallbackQueue := CallbackQueue_new (),
                callbackQueuePool := getPooled (callbackQueuePool s)\<rparr>"
  from st s have 1: "I ?s1" and ps: "passStable P I"
    and r: "\<And>s p. I s \<Longrightarrow> I (s\<lparr>callbackQueuePool := p\<rparr>)"
    unfolding drainStable_def by simp_all
  from stable_notifyQueue [OF ps _ 1, of AsapNotified "asapCallbackQueue s"] r
  show ?thesis
    by (cases "notifyQueue P AsapNotified (asapCallbackQueue s) ?s1")
       (auto simp: asapPass_def split: prod.splits)
qed

lemma stable_flush:
  "drainStable P I \<Longrightarrow> I s \<Longrightarrow> post I I (flushBatchedUpdates n P s)"
proof (induction n arbitrary: s)
  case 0
  then show ?case by simp
next
  case (Suc n)
  have f: "\<And>s. I s \<Longrightarrow> post I I (flushBatchedUpdates n P s)"
    using Suc.IH [OF Suc.prems(1)] .
  have "post I I (flushPass P (flushBatchedUpdates n P) s)"
    by (rule stable_flushPass [OF Suc.prems(1) f Suc.prems(2)])
  then have 1: "post I I (if dirtyComponents s \<noteq> [] then flushPass P (flushBatchedUpdates n P) s
                     else Return s)"
    using Suc.prems(2) by simp
  have 2: "post I I (andThen (if asapEnqueued s1 then asapPass P s1 else Return s1)
                       (flushBatchedUpdates n P))" if "I s1" for s1
  proof (rule post_andThen [where Q' = I])
    show "post I I (if asapEnqueued s1 then asapPass P s1 else Return s1)"
      using stable_asapPass [OF Suc.prems(1) that] that by simp
  qed (rule f)
  show ?case
    using Suc.prems(2) post_andThen [OF 1 2]
    by simp
qed

lemma outstanding_simps [simp]:
  "outstanding (getPooled p) = outstanding p + 1"
  "outstanding (release p) = outstanding p - 1"
  by (simp_all add: outstanding_def getPooled_def release_def)

lemma pooled_userCall: "pooled b s \<Longrightarrow> post (pooled b) (pooled b) (runUserCall P u s)"
  by (cases u)
     (auto simp: pooled_def poolsOutstanding_def runUserCall_def enqueueUpdate_batching asap_batching)

lemma pooled_stable: "passStable P (pooled b)"
  unfolding passStable_def
  by (auto simp: pooled_userCall) (auto simp: pooled_def poolsOutstanding_def)

lemma pooled_Return:
  "post Q R r \<Longrightarrow> r = Return s' \<Longrightarrow> Q s'"
  by simp

lemma flushPerform_pooled:
  assumes f: "\<And>s s'. pooled b s \<Longrightarrow> flush s = Return s' \<Longrightarrow> pooled b s'"
    and s: "pooled b s" and r: "flushPerform P flush (s, t) = Return (s', t')"
  shows "pooled b s'"
proof -
  from flushPerform_Return [OF r] obtain s1 s2 t2 s3 s4 q where
    1: "runScript P (hostInitialize P s) s = Return s1"
    and 2: "runBatchedUpdates P
       (s1, t\<lparr>dirtyComponentsLength := Some (length (dirtyComponents s)),
               callbackQueue := reset (callbackQueue t)\<rparr>) = Return (s2, t2)"
    and 3: "runScript P (hostClose P s2) s2 = Return s3"
    and 4: "if dirtyComponentsLength t2 \<noteq> Some (length (dirtyComponents s3))
      then flush (s3\<lparr>dirtyComponents :=
                        spliceFront (dirtyComponentsLength t2) (dirtyComponents s3)\<rparr>) = Return s4
      else s4 = s3\<lparr>dirtyComponents := []\<rparr>"
    and 5: "notifyQueue P Notified (callbackQueue t2) s4 = Return (q, s')"
    by blast
  from stable_script [OF pooled_stable [of P] s, where us = "hostInitialize P s"] 1 have "pooled b s1" by simp
  from stable_runBatchedUpdates [OF pooled_stable [of P] this, where t = "t\<lparr>dirtyComponentsLength := Some (length (dirtyComponents s)),
               callbackQueue := reset (callbackQueue t)\<rparr>"] 2 have "pooled b s2" by simp
  from stable_script [OF pooled_stable [of P] this, where us = "hostClose P s2"] 3 have s3: "pooled b s3" by simp
  then have "pooled b (s3\<lparr>dirtyComponents := d\<rparr>)" for d
    by (simp add: pooled_def poolsOutstanding_def)
  with 4 f have "pooled b s4" by (auto split: if_splits)
  from stable_notifyQueue [OF pooled_stable [of P] _ this, where mk = Notified and q = "callbackQueue t2"] 5
  show ?thesis by simp
qed

lemma flushPass_pooled:
  assumes f: "\<And>b s s'. pooled b s \<Longrightarrow> flush s = Return s' \<Longrightarrow> pooled b s'"
    and s: "pooled b s" and r: "flushPass P flush s = Return s'"
  shows "pooled b s'"
proof -
  obtain b1 b2 b3 where b: "b = (b1, b2, b3)" by (cases b)
  obtain s0 t0 where g: "getPooledFlushTransaction s = (s0, t0)"
    by (cases "getPooledFlushTransaction s")
  from r g obtain s1 t1 where p: "flushPerform P flush (s0, t0) = Return (s1, t1)"
    and s': "s' = releaseFlushTransaction (s1, t1)"
    by (auto simp: flushPass_def split: outcome.splits)
  from g s have "pooled (b1 + 1, b2 + 1, b3 + 1) s0"
    by (auto simp: getPooledFlushTransaction_def pooled_def poolsOutstanding_def b)
  from flushPerform_pooled [OF f this p] have "pooled (b1 + 1, b2 + 1, b3 + 1) s1" .
  then show ?thesis
    by (simp add: s' releaseFlushTransaction_def pooled_def poolsOutstanding_def b)
qed

lemma asapPass_pooled:
  assumes s: "pooled b s" and r: "asapPass P s = Return s'"
  shows "pooled b s'"
proof -
  obtain b1 b2 b3 where b: "b = (b1, b2, b3)" by (cases b)
  let ?s1 = "s\<lparr>asapEnqueued := False, asapCallbackQueue := CallbackQueue_new (),
                callbackQueuePool := getPooled (callbackQueuePool s)\<rparr>"
  from r obtain q s2 where n: "notifyQueue P AsapNotified (asapCallbackQueue s) ?s1 = Return (q, s2)"
    and s': "s' = s2\<lparr>callbackQueuePool := release (callbackQueuePool s2)\<rparr>"
    by (auto simp: asapPass_def split: outcome.splits)
  from s have "pooled (b1, b2 + 1, b3) ?s1"
    by (simp add: pooled_def poolsOutstanding_def b)
  from stable_notifyQueue [OF pooled_stable [of P] _ this, where mk = AsapNotified and q = "asapCallbackQueue s"] n
  have "pooled (b1, b2 + 1, b3) s2" by simp
  then show ?thesis by (simp add: s' pooled_def poolsOutstanding_def b)
qed

lemma flush_pooled:
  "pooled b s \<Longrightarrow> flushBatchedUpdates n P s = Return s' \<Longrightarrow> pooled b s'"
proof (induction n arbitrary: b s s')
  case 0
  then show ?case by (simp split: if_splits)
next
  case (Suc n)
  show ?case
  proof (cases "dirtyComponents s \<noteq> [] \<or> asapEnqueued s")
    case False
    with Suc.prems show ?thesis by simp
  next
    case True
    with Suc.prems(2) obtain s1 s2 where
      1: "(if dirtyComponents s \<noteq> [] then flushPass P (flushBatchedUpdates n P) s else Return s)
            = Return s1"
      and 2: "(if asapEnqueued s1 then asapPass P s1 else Return s1) = Return s2"
      and 3: "flushBatchedUpdates n P s2 = Return s'"
      by (auto simp: andThen_def split: outcome.splits)
    have "pooled b s1"
    proof (cases "dirtyComponents s \<noteq> []")
      case True
      with 1 have "flushPass P (flushBatchedUpdates n P) s = Return s1" by simp
      with Suc.prems(1) show ?thesis
        by (rule flushPass_pooled [rotated]) (rule Suc.IH)
    next
      case False
      with 1 Suc.prems(1) show ?thesis by simp
    qed
    with 2 have "pooled b s2"
      by (auto split: if_splits intro: asapPass_pooled)
    then show ?thesis using 3 by (rule Suc.IH)
  qed
qed




subsection \<open>At most one update for each batch number\<close>

lemma drop_trace_logEvent [simp]:
  "k \<le> length (trace s) \<Longrightarrow> drop k (trace (logEvent ev s)) = drop k (trace s) @ [ev]"
  by simp

lemma eventsSince_self [simp]: "eventsSince s s = []"
  by (simp add: eventsSince_def)

lemma onePerBatch_userCall:
  "onePerBatch k s \<Longrightarrow> post (onePerBatch k) (onePerBatch k) (runUserCall P u s)"
  by (cases u)
     (auto simp: onePerBatch_def runUserCall_def enqueueUpdate_batching asap_batching)

lemma onePerBatch_stable: "drainStable P (onePerBatch k)"
  unfolding drainStable_def passStable_def
proof (intro conjI allI impI)
  fix s c
  assume "onePerBatch k s \<and> batchNumberOf s c = Some (updateBatchNumber s)"
  then show "onePerBatch k (setBatchNumber c None (logEvent (Delegated c (updateBatchNumber s)) s))"
    by (auto simp: onePerBatch_def)
next
  fix s
  assume "onePerBatch k s"
  then show "onePerBatch k ((sortByMountOrder s)\<lparr>updateBatchNumber := updateBatchNumber s + 1\<rparr>)"
    by (fastforce simp: onePerBatch_def)
qed (auto simp: onePerBatch_userCall, auto simp: onePerBatch_def)

lemma onePerBatch_drain:
  assumes "injected s" "isBatchingUpdates s"
  shows "post (\<lambda>s'. distinct (delegations (eventsSince s s')))
              (\<lambda>s'. distinct (delegations (eventsSince s s')))
              (andThen (runScript P us s) (flushBatchedUpdates n P))"
proof -
  let ?I = "onePerBatch (length (trace s))"
  have s: "?I s" using assms by (simp add: onePerBatch_def)
  have "post ?I ?I (andThen (runScript P us s) (flushBatchedUpdates n P))"
  proof (rule post_andThen [where Q' = ?I])
    from onePerBatch_stable [of P "length (trace s)"] have "passStable P ?I"
      by (simp add: drainStable_def)
    then show "post ?I ?I (runScript P us s)"
      using s by (rule stable_script)
  next
    fix s1
    assume "?I s1"
    with onePerBatch_stable [of P "length (trace s)"]
    show "post ?I ?I (flushBatchedUpdates n P s1)"
      by (rule stable_flush)
  qed
  then show ?thesis
    by (rule post_mono) (simp_all add: onePerBatch_def eventsSince_def)
qed

subsection \<open>An instance with another batch number is passed over\<close>

lemma passedOver_userCall:
  "passedOver k c g s \<Longrightarrow> post (passedOver k c g) (passedOver k c g) (runUserCall P u s)"
  by (cases u)
     (auto simp: passedOver_def runUserCall_def enqueueUpdate_batching asap_batching)

lemma passedOver_script:
  "passedOver k c g s \<Longrightarrow> post (passedOver k c g) (passedOver k c g) (runScript P us s)"
  by (rule runScript_post [OF passedOver_userCall])

lemma passedOver_turn:
  assumes "passedOver k c g (fst w)"
  shows "post (\<lambda>w. passedOver k c g (fst w)) (\<lambda>w. passedOver k c g (fst w)) (reconcileTurn P c' w)"
proof -
  obtain s t where w: "w = (s, t)" by (cases w)
  let ?s1 = "setPendingCallbacks c' None s"
  from assms have s1: "passedOver k c g ?s1" by (simp add: w passedOver_def)
  have "post (passedOver k c g) (passedOver k c g)
          (performUpdateIfNecessary P c' (updateBatchNumber s) ?s1)"
  proof (rule performUpdateIfNecessary_post)
    show "passedOver k c g (logEvent (Performed c' (updateBatchNumber s)) ?s1)"
      using s1 by (simp add: passedOver_def)
  next
    let ?s2 = "logEvent (Delegated c' (updateBatchNumber ?s1))
                 (logEvent (Performed c' (updateBatchNumber s)) ?s1)"
    assume "batchNumberOf ?s1 c' = Some (updateBatchNumber s)"
    with s1 have "passedOver k c g (setBatchNumber c' None ?s2)"
      by (auto simp: passedOver_def)
    then show "post (passedOver k c g) (passedOver k c g)
       (runScript P (nodeKind P c' ?s2) (setBatchNumber c' None ?s2))"
      by (rule passedOver_script)
  qed
  then show ?thesis
    by (cases "performUpdateIfNecessary P c' (updateBatchNumber s) ?s1")
       (simp_all add: w reconcileTurn_def)
qed

lemma reconcileInOrder_post:
  assumes "\<And>c w. I w \<Longrightarrow> post I I (reconcileTurn P c w)" and "I w"
  shows "post I I (reconcileInOrder P cs w)"
  using assms(2)
proof (induction cs arbitrary: w)
  case Nil
  then show ?case by simp
next
  case (Cons c cs)
  show ?case
    unfolding reconcileInOrder.simps
    by (rule post_andThen [OF assms(1) [OF Cons.prems]]) (rule Cons.IH)
qed

lemma runBatchedUpdates_passedOver:
  assumes "injected s" "isBatchingUpdates s" "batchNumberOf s c \<noteq> Some (updateBatchNumber s + 1)"
  shows "post (\<lambda>w. (c, updateBatchNumber s + 1) \<notin> set (delegations (eventsSince s (fst w))))
              (\<lambda>w. (c, updateBatchNumber s + 1) \<notin> set (delegations (eventsSince s (fst w))))
              (runBatchedUpdates P (s, t))"
proof (cases "dirtyComponentsLength t = Some (length (dirtyComponents s))")
  case False
  then show ?thesis by (simp add: runBatchedUpdates_inOrder [OF assms(1,2)])
next
  case True
  let ?I = "\<lambda>w. passedOver (length (trace s)) c (updateBatchNumber s + 1) (fst w)"
  let ?s0 = "s\<lparr>dirtyComponents := sort_key (mountOrderOf s) (dirtyComponents s),
                updateBatchNumber := updateBatchNumber s + 1\<rparr>"
  have "?I (?s0, t)" using assms by (simp add: passedOver_def)
  then have "post ?I ?I (reconcileInOrder P (sort_key (mountOrderOf s) (dirtyComponents s)) (?s0, t))"
    by (rule reconcileInOrder_post [rotated]) (rule passedOver_turn)
  then have "post (\<lambda>w. (c, updateBatchNumber s + 1) \<notin> set (delegations (eventsSince s (fst w))))
              (\<lambda>w. (c, updateBatchNumber s + 1) \<notin> set (delegations (eventsSince s (fst w))))
              (reconcileInOrder P (sort_key (mountOrderOf s) (dirtyComponents s)) (?s0, t))"
    by (rule post_mono) (simp_all add: passedOver_def eventsSince_def)
  with True show ?thesis by (simp add: runBatchedUpdates_inOrder [OF assms(1,2)])
qed

subsection \<open>Duties\<close>

lemma duties_simps [simp]:
  "duties every D [] = D"
  "duties every D (tr @ tr') = duties every (duties every D tr) tr'"
  "duties every D (ev # tr) = duties every (dutyStep every D ev) tr"
  by (simp_all add: duties_def)

lemma mem_scheduled [simp]:
  "(c, b) \<in> scheduled s \<longleftrightarrow>
     c \<in> set (dirtyComponents s) \<and> batchNumberOf s c = Some b \<and> b = updateBatchNumber s + 1"
  by (auto simp: scheduled_def)

lemma mem_waiting [simp]:
  "(c, b) \<in> waiting ds cs s \<longleftrightarrow>
     batchNumberOf s c = Some b \<and>
     ((b = updateBatchNumber s \<and> c \<in> set cs) \<or>
      (b = updateBatchNumber s + 1 \<and> c \<in> set (drop (length ds) (dirtyComponents s))))"
  by (simp add: waiting_def)

lemma subset_pairs: "A \<subseteq> B \<longleftrightarrow> (\<forall>c b. (c, b) \<in> A \<longrightarrow> (c, b) \<in> B)"
  by auto

lemma drainDuties_enqueue:
  assumes "drainDuties every k D s"
  shows "post (drainDuties every k D) (drainDuties every k D) (enqueueUpdate P c s)"
proof -
  from assms have i: "injected s" "isBatchingUpdates s" and k: "k \<le> length (trace s)"
    and d: "\<And>c b. (c, b) \<in> duties every D (drop k (trace s)) \<Longrightarrow> (c, b) \<in> scheduled s"
    and t: "every \<Longrightarrow> tidy s"
    by (auto simp: drainDuties_def)
  show ?thesis
  proof (cases "batchNumberOf s c")
    case None
    with i k d t show ?thesis
      by (auto simp: enqueueUpdate_batching drainDuties_def tidy_def subset_pairs)
  next
    case (Some b)
    with i k d t show ?thesis
      by (auto simp: enqueueUpdate_batching drainDuties_def tidy_def subset_pairs)
  qed
qed

lemma drainDuties_userCall:
  "drainDuties every k D s \<Longrightarrow>
   post (drainDuties every k D) (drainDuties every k D) (runUserCall P u s)"
proof (cases u)
  case (EnqueueUpdate c)
  assume "drainDuties every k D s"
  then show ?thesis unfolding EnqueueUpdate runUserCall_def userCall.case
    by (rule drainDuties_enqueue)
qed (auto simp: drainDuties_def runUserCall_def asap_batching tidy_def subset_pairs)

lemma drainDuties_script:
  "drainDuties every k D s \<Longrightarrow>
   post (drainDuties every k D) (drainDuties every k D) (runScript P us s)"
  by (rule runScript_post [OF drainDuties_userCall])

lemma mem_duties_snoc [simp]:
  "(x, y) \<in> duties every D (tr @ [Enqueued c fresh b]) \<longleftrightarrow>
     ((fresh \<or> every) \<and> x = c \<and> y = b) \<or> (x, y) \<in> duties every D tr"
  "(x, y) \<in> duties every D (tr @ [Delegated c g]) \<longleftrightarrow>
     (x, y) \<in> duties every D tr \<and> \<not> (x = c \<and> y = g)"
  "duties every D (tr @ [Performed c g]) = duties every D tr"
  "duties every D (tr @ [Notified cb ctx]) = duties every D tr"
  "duties every D (tr @ [AsapNotified cb ctx]) = duties every D tr"
  by auto

lemma passDuties_enqueue:
  assumes "passDuties every k D ds cs s"
  shows "post (passDuties every k D ds cs) (passDuties every k D ds cs) (enqueueUpdate P c s)"
proof -
  from assms have i: "injected s" "isBatchingUpdates s" and k: "k \<le> length (trace s)"
    and tk: "take (length ds) (dirtyComponents s) = ds"
    and d: "\<And>x y. (x, y) \<in> duties every D (drop k (trace s)) \<Longrightarrow> (x, y) \<in> waiting ds cs s"
    and t: "\<And>x y. every \<Longrightarrow> batchNumberOf s x = Some y \<Longrightarrow> (x, y) \<in> waiting ds cs s"
    by (auto simp: passDuties_def)
  from arg_cong [OF tk, of length] have len: "length ds \<le> length (dirtyComponents s)" by simp
  let ?fresh = "batchNumberOf s c = None"
  let ?b = "case batchNumberOf s c of None \<Rightarrow> updateBatchNumber s + 1 | Some b \<Rightarrow> b"
  let ?s' = "logEvent (Enqueued c ?fresh ?b)
       ((if ?fresh then setBatchNumber c (Some (updateBatchNumber s + 1)) else id)
          (s\<lparr>dirtyComponents := dirtyComponents s @ [c]\<rparr>))"
  have e: "enqueueUpdate P c s = Return ?s'"
    using i by (simp add: enqueueUpdate_batching)
  have tag: "batchNumberOf ?s' x = (if x = c then Some ?b else batchNumberOf s x)" for x
    by (auto split: option.splits)
  have w: "(x, y) \<in> waiting ds cs ?s'" if "(x, y) \<in> waiting ds cs s" for x y
    using that len by (auto split: option.splits)
  have n: "(c, ?b) \<in> waiting ds cs ?s'" if "?fresh \<or> every"
  proof (cases "batchNumberOf s c")
    case None
    then show ?thesis using len by simp
  next
    case (Some b)
    from that Some have every by simp
    then have "(c, b) \<in> waiting ds cs s" using Some by (rule t)
    from w [OF this] Some show ?thesis by simp
  qed
  have "passDuties every k D ds cs ?s'"
    unfolding passDuties_def
  proof (intro conjI impI allI)
    show "duties every D (drop k (trace ?s')) \<subseteq> waiting ds cs ?s'"
    proof (unfold subset_pairs, intro allI impI)
      fix x y
      assume "(x, y) \<in> duties every D (drop k (trace ?s'))"
      with k have "((?fresh \<or> every) \<and> x = c \<and> y = ?b) \<or> (x, y) \<in> duties every D (drop k (trace s))"
        by (simp split: if_splits)
      then show "(x, y) \<in> waiting ds cs ?s'"
        using n w d by blast
    qed
  next
    fix x y
    assume ev: every and "batchNumberOf ?s' x = Some y"
    then have "(x = c \<and> y = ?b) \<or> batchNumberOf s x = Some y"
      unfolding tag by (simp split: if_splits)
    then show "(x, y) \<in> waiting ds cs ?s'"
      using n w t ev by blast
  qed (use i k tk len in \<open>simp_all split: if_splits\<close>)
  with e show ?thesis by simp
qed

lemma passDuties_userCall:
  "passDuties every k D ds cs s \<Longrightarrow>
   post (passDuties every k D ds cs) (passDuties every k D ds cs) (runUserCall P u s)"
proof (cases u)
  case (EnqueueUpdate c)
  assume "passDuties every k D ds cs s"
  then show ?thesis unfolding EnqueueUpdate runUserCall_def userCall.case
    by (rule passDuties_enqueue)
qed (auto simp: passDuties_def runUserCall_def asap_batching subset_pairs)

lemma passDuties_script:
  "passDuties every k D ds cs s \<Longrightarrow>
   post (passDuties every k D ds cs) (passDuties every k D ds cs) (runScript P us s)"
  by (rule runScript_post [OF passDuties_userCall])

lemma reconcileInOrder_rule:
  assumes step: "\<And>c cs w. Inv (c # cs) w \<Longrightarrow> post (Inv cs) R (reconcileTurn P c w)"
    and "Inv cs w"
  shows "post (Inv []) R (reconcileInOrder P cs w)"
  using assms(2)
proof (induction cs arbitrary: w)
  case Nil
  then show ?case by simp
next
  case (Cons c cs)
  show ?case
    unfolding reconcileInOrder.simps
    by (rule post_andThen [OF step [OF Cons.prems]]) (rule Cons.IH)
qed

lemma passDuties_turn:
  assumes "passDuties every k D ds (c # cs) (fst w)"
  shows "post (\<lambda>w. passDuties every k D ds cs (fst w)) (\<lambda>w. True) (reconcileTurn P c w)"
proof -
  obtain s t where w: "w = (s, t)" by (cases w)
  let ?s1 = "setPendingCallbacks c None s"
  let ?g = "updateBatchNumber s"
  let ?s2 = "logEvent (Performed c ?g) ?s1"
  from assms have i: "injected s" "isBatchingUpdates s" and k: "k \<le> length (trace s)"
    and tk: "take (length ds) (dirtyComponents s) = ds"
    and d: "\<And>x y. (x, y) \<in> duties every D (drop k (trace s)) \<Longrightarrow> (x, y) \<in> waiting ds (c # cs) s"
    and t: "\<And>x y. every \<Longrightarrow> batchNumberOf s x = Some y \<Longrightarrow> (x, y) \<in> waiting ds (c # cs) s"
    by (auto simp: w passDuties_def)
  have "post (passDuties every k D ds cs) (\<lambda>s. True) (performUpdateIfNecessary P c ?g ?s1)"
  proof (rule performUpdateIfNecessary_post)
    assume n: "batchNumberOf ?s1 c \<noteq> Some ?g"
    have w: "(x, y) \<in> waiting ds cs ?s2" if "(x, y) \<in> waiting ds (c # cs) s" for x y
      using that n by auto
    show "passDuties every k D ds cs ?s2"
      unfolding passDuties_def
    proof (intro conjI impI allI)
      show "duties every D (drop k (trace ?s2)) \<subseteq> waiting ds cs ?s2"
        unfolding subset_pairs using k d w by simp
    next
      fix x y
      assume every "batchNumberOf ?s2 x = Some y"
      then show "(x, y) \<in> waiting ds cs ?s2" using t [of x y] w by simp
    qed (use i k tk in simp_all)
  next
    let ?s3 = "logEvent (Delegated c (updateBatchNumber ?s1)) ?s2"
    let ?s4 = "setBatchNumber c None ?s3"
    assume y: "batchNumberOf ?s1 c = Some ?g"
    have w: "(x, y) \<in> waiting ds cs ?s4" if "(x, y) \<in> waiting ds (c # cs) s" "x \<noteq> c" for x y
      using that by auto
    have c: "y = ?g" if "(c, y) \<in> waiting ds (c # cs) s" for y
      using that y by simp
    have "passDuties every k D ds cs ?s4"
      unfolding passDuties_def
    proof (intro conjI impI allI)
      show "duties every D (drop k (trace ?s4)) \<subseteq> waiting ds cs ?s4"
      proof (unfold subset_pairs, intro allI impI)
        fix x y
        assume "(x, y) \<in> duties every D (drop k (trace ?s4))"
        with k have m: "(x, y) \<in> duties every D (drop k (trace s))" and ne: "\<not> (x = c \<and> y = ?g)"
          by simp_all
        from d [OF m] have wt: "(x, y) \<in> waiting ds (c # cs) s" .
        with c ne have "x \<noteq> c" by blast
        with wt show "(x, y) \<in> waiting ds cs ?s4" by (rule w)
      qed
    next
      fix x y
      assume ev: every and b: "batchNumberOf ?s4 x = Some y"
      then have ne: "x \<noteq> c" and "batchNumberOf s x = Some y" by (auto split: if_splits)
      with t ev have "(x, y) \<in> waiting ds (c # cs) s" by blast
      then show "(x, y) \<in> waiting ds cs ?s4" using ne by (rule w)
    qed (use i k tk in simp_all)
    then show "post (passDuties every k D ds cs) (\<lambda>s. True)
               (runScript P (nodeKind P c ?s3) ?s4)"
      by (rule post_mono [OF passDuties_script]) simp_all
  qed
  then show ?thesis
    by (cases "performUpdateIfNecessary P c ?g ?s1") (simp_all add: w reconcileTurn_def)
qed

lemma runBatchedUpdates_duties:
  assumes d: "drainDuties every k D s"
    and r: "runBatchedUpdates P (s, t) = Return (s2, t2)"
  shows "passDuties every k D (sort_key (mountOrderOf s) (dirtyComponents s)) [] s2"
proof -
  let ?ds = "sort_key (mountOrderOf s) (dirtyComponents s)"
  let ?s0 = "s\<lparr>dirtyComponents := ?ds, updateBatchNumber := updateBatchNumber s + 1\<rparr>"
  from d have i: "injected s" "isBatchingUpdates s" by (simp_all add: drainDuties_def)
  from r have eq: "reconcileInOrder P ?ds (?s0, t) = Return (s2, t2)"
    unfolding runBatchedUpdates_inOrder [OF i] by (simp split: if_splits)
  have "passDuties every k D ?ds ?ds ?s0"
    using d by (auto simp: passDuties_def drainDuties_def tidy_def subset_pairs)
  then have "post (\<lambda>w. passDuties every k D ?ds [] (fst w)) (\<lambda>w. True)
               (reconcileInOrder P ?ds (?s0, t))"
    by (intro reconcileInOrder_rule [where Inv = "\<lambda>cs w. passDuties every k D ?ds cs (fst w)"]
          passDuties_turn) simp_all
  with eq show ?thesis by simp
qed

lemma passDuties_done:
  assumes "passDuties every k D ds [] s"
  shows "drainDuties every k D (s\<lparr>dirtyComponents := drop (length ds) (dirtyComponents s)\<rparr>)"
  using assms by (auto simp: passDuties_def drainDuties_def tidy_def subset_pairs)

lemma drainDuties_pools [simp]:
  "drainDuties every k D (s\<lparr>flushTransactionPool := a\<rparr>) = drainDuties every k D s"
  "drainDuties every k D (s\<lparr>callbackQueuePool := b\<rparr>) = drainDuties every k D s"
  "drainDuties every k D (s\<lparr>reconcileTransactionPool := c\<rparr>) = drainDuties every k D s"
  "drainDuties every k D (s\<lparr>asapEnqueued := e\<rparr>) = drainDuties every k D s"
  "drainDuties every k D (s\<lparr>asapCallbackQueue := q\<rparr>) = drainDuties every k D s"
  by (simp_all add: drainDuties_def tidy_def scheduled_def)

lemma post_Return: "post Q R r \<Longrightarrow> r = Return s \<Longrightarrow> Q s"
  by simp

lemma notifyQueue_duties:
  assumes "drainDuties every k D s" "mk = Notified \<or> mk = AsapNotified"
  shows "post (\<lambda>w. drainDuties every k D (snd w)) (\<lambda>w. drainDuties every k D (snd w))
           (notifyQueue P mk q s)"
proof (rule notifyQueue_post)
  show "drainDuties every k D s" by fact
next
  fix cb ctx s
  assume "drainDuties every k D s"
  with assms(2) show "drainDuties every k D (logEvent (mk cb ctx) s)"
    by (auto simp: drainDuties_def tidy_def)
next
  fix us s
  assume "drainDuties every k D s"
  then show "post (drainDuties every k D) (drainDuties every k D) (runScript P us s)"
    by (rule drainDuties_script)
qed

text \<open>What a turn of the drain loop that returns has done for the duties.\<close>

lemma flushPerform_duties:
  assumes f: "\<And>s s'. drainDuties every k D s \<Longrightarrow> flush s = Return s' \<Longrightarrow> drainDuties every k D s'"
    and s: "drainDuties every k D s" and r: "flushPerform P flush (s, t) = Return (s', t')"
  shows "drainDuties every k D s'"
proof -
  let ?t1 = "t\<lparr>dirtyComponentsLength := Some (length (dirtyComponents s)),
               callbackQueue := reset (callbackQueue t)\<rparr>"
  from flushPerform_Return [OF r] obtain s1 s2 t2 s3 s4 q where
    1: "runScript P (hostInitialize P s) s = Return s1"
    and 2: "runBatchedUpdates P (s1, ?t1) = Return (s2, t2)"
    and 3: "runScript P (hostClose P s2) s2 = Return s3"
    and 4: "if dirtyComponentsLength t2 \<noteq> Some (length (dirtyComponents s3))
      then flush (s3\<lparr>dirtyComponents :=
                        spliceFront (dirtyComponentsLength t2) (dirtyComponents s3)\<rparr>) = Return s4
      else s4 = s3\<lparr>dirtyComponents := []\<rparr>"
    and 5: "notifyQueue P Notified (callbackQueue t2) s4 = Return (q, s')"
    by blast
  let ?ds = "sort_key (mountOrderOf s1) (dirtyComponents s1)"
  from post_Return [OF drainDuties_script [OF s] 1] have s1: "drainDuties every k D s1" .
  then have i1: "injected s1" "isBatchingUpdates s1" by (simp_all add: drainDuties_def)
  from 2 have l1: "length (dirtyComponents s) = length (dirtyComponents s1)"
    unfolding runBatchedUpdates_inOrder [OF i1] by (simp split: if_splits)
  from runBatchedUpdates_duties [OF s1 2] have p2: "passDuties every k D ?ds [] s2" .
  have l2: "dirtyComponentsLength t2 = Some (length ?ds)"
  proof -
    have "post (\<lambda>w. dirtyComponentsLength (snd w) = Some (length ?ds)) (\<lambda>w. True)
            (reconcileInOrder P ?ds
               (s1\<lparr>dirtyComponents := ?ds, updateBatchNumber := updateBatchNumber s1 + 1\<rparr>, ?t1))"
    proof (rule reconcileInOrder_rule
        [where Inv = "\<lambda>cs w. dirtyComponentsLength (snd w) = Some (length ?ds)"])
      show "dirtyComponentsLength (snd (s1\<lparr>dirtyComponents := ?ds,
              updateBatchNumber := updateBatchNumber s1 + 1\<rparr>, ?t1)) = Some (length ?ds)"
        using l1 by simp
    next
      fix c :: nat and cs :: "nat list" and w :: flushState
      assume a: "dirtyComponentsLength (snd w) = Some (length ?ds)"
      obtain x y where w: "w = (x, y)" by (cases w)
      show "post (\<lambda>w. dirtyComponentsLength (snd w) = Some (length ?ds)) (\<lambda>w. True)
              (reconcileTurn P c w)"
        using a unfolding w reconcileTurn_def
        by (cases "performUpdateIfNecessary P c (updateBatchNumber x) (setPendingCallbacks c None x)")
           simp_all
    qed
    with 2 show ?thesis
      unfolding runBatchedUpdates_inOrder [OF i1] by (simp split: if_splits)
  qed
  from post_Return [OF passDuties_script [OF p2] 3] have p3: "passDuties every k D ?ds [] s3" .
  from passDuties_done [OF p3]
  have d3: "drainDuties every k D (s3\<lparr>dirtyComponents := drop (length ?ds) (dirtyComponents s3)\<rparr>)" .
  have "drainDuties every k D s4"
  proof (cases "dirtyComponentsLength t2 \<noteq> Some (length (dirtyComponents s3))")
    case True
    with 4 l2 have "flush (s3\<lparr>dirtyComponents := drop (length ?ds) (dirtyComponents s3)\<rparr>) = Return s4"
      by (simp add: spliceFront_def)
    with d3 show ?thesis by (rule f)
  next
    case False
    with 4 l2 d3 show ?thesis by simp
  qed
  from post_Return [OF notifyQueue_duties [OF this, of Notified] 5] show ?thesis by simp
qed

lemma flushPass_duties:
  assumes f: "\<And>s s'. drainDuties every k D s \<Longrightarrow> flush s = Return s' \<Longrightarrow> drainDuties every k D s'"
    and s: "drainDuties every k D s" and r: "flushPass P flush s = Return s'"
  shows "drainDuties every k D s'"
proof -
  obtain s0 t0 where g: "getPooledFlushTransaction s = (s0, t0)"
    by (cases "getPooledFlushTransaction s")
  from r g obtain s1 t1 where p: "flushPerform P flush (s0, t0) = Return (s1, t1)"
    and s': "s' = releaseFlushTransaction (s1, t1)"
    by (cases "flushPerform P flush (s0, t0)") (auto simp: flushPass_def)
  from g s have "drainDuties every k D s0"
    by (auto simp: getPooledFlushTransaction_def)
  from flushPerform_duties [OF f this p] have "drainDuties every k D s1" .
  then show ?thesis
    by (simp add: s' releaseFlushTransaction_def)
qed

lemma asapPass_duties:
  assumes s: "drainDuties every k D s" and r: "asapPass P s = Return s'"
  shows "drainDuties every k D s'"
proof -
  let ?s1 = "s\<lparr>asapEnqueued := False, asapCallbackQueue := CallbackQueue_new (),
                callbackQueuePool := getPooled (callbackQueuePool s)\<rparr>"
  from r obtain q s2 where n: "notifyQueue P AsapNotified (asapCallbackQueue s) ?s1 = Return (q, s2)"
    and s': "s' = s2\<lparr>callbackQueuePool := release (callbackQueuePool s2)\<rparr>"
    by (cases "notifyQueue P AsapNotified (asapCallbackQueue s) ?s1")
       (auto simp: asapPass_def)
  from s have "drainDuties every k D ?s1" by simp
  from post_Return [OF notifyQueue_duties [OF this, of AsapNotified] n] show ?thesis
    by (simp add: s')
qed

lemma flush_Suc_Return:
  assumes "flushBatchedUpdates (Suc n) P s = Return s'" "dirtyComponents s \<noteq> [] \<or> asapEnqueued s"
  shows "\<exists>s1 s2.
     (if dirtyComponents s \<noteq> [] then flushPass P (flushBatchedUpdates n P) s else Return s)
        = Return s1 \<and>
     (if asapEnqueued s1 then asapPass P s1 else Return s1) = Return s2 \<and>
     flushBatchedUpdates n P s2 = Return s'"
proof -
  from assms have "andThen (if dirtyComponents s \<noteq> [] then flushPass P (flushBatchedUpdates n P) s
                 else Return s)
          (\<lambda>s1. andThen (if asapEnqueued s1 then asapPass P s1 else Return s1)
                   (flushBatchedUpdates n P)) = Return s'"
    by (simp only: flushBatchedUpdates.simps if_True)
  from andThen_Return [OF this] obtain s1 where
    1: "(if dirtyComponents s \<noteq> [] then flushPass P (flushBatchedUpdates n P) s else Return s)
          = Return s1"
    and 23: "andThen (if asapEnqueued s1 then asapPass P s1 else Return s1)
                 (flushBatchedUpdates n P) = Return s'"
    by blast
  from andThen_Return [OF 23] obtain s2 where
    "(if asapEnqueued s1 then asapPass P s1 else Return s1) = Return s2"
    "flushBatchedUpdates n P s2 = Return s'"
    by blast
  with 1 show ?thesis by blast
qed

lemma flush_quiet:
  "flushBatchedUpdates n P s = Return s' \<Longrightarrow> dirtyComponents s' = [] \<and> \<not> asapEnqueued s'"
proof (induction n arbitrary: s)
  case 0
  then show ?case by (simp split: if_splits)
next
  case (Suc n)
  show ?case
  proof (cases "dirtyComponents s \<noteq> [] \<or> asapEnqueued s")
    case False
    with Suc.prems have "s' = s" by simp
    with False show ?thesis by simp
  next
    case True
    from flush_Suc_Return [OF Suc.prems True] obtain s2 where "flushBatchedUpdates n P s2 = Return s'"
      by blast
    then show ?thesis by (rule Suc.IH)
  qed
qed

lemma flush_duties:
  "drainDuties every k D s \<Longrightarrow> flushBatchedUpdates n P s = Return s' \<Longrightarrow> drainDuties every k D s'"
proof (induction n arbitrary: s s')
  case 0
  then show ?case by (simp split: if_splits)
next
  case (Suc n)
  show ?case
  proof (cases "dirtyComponents s \<noteq> [] \<or> asapEnqueued s")
    case False
    with Suc.prems(2) have "s' = s" by simp
    with Suc.prems(1) show ?thesis by simp
  next
    case True
    from flush_Suc_Return [OF Suc.prems(2) True] obtain s1 s2 where
      1: "(if dirtyComponents s \<noteq> [] then flushPass P (flushBatchedUpdates n P) s else Return s)
            = Return s1"
      and 2: "(if asapEnqueued s1 then asapPass P s1 else Return s1) = Return s2"
      and 3: "flushBatchedUpdates n P s2 = Return s'"
      by blast
    have ih: "\<And>s s'. drainDuties every k D s \<Longrightarrow> flushBatchedUpdates n P s = Return s' \<Longrightarrow>
                      drainDuties every k D s'"
      by (rule Suc.IH)
    have "drainDuties every k D s1"
    proof (cases "dirtyComponents s \<noteq> []")
      case True
      with 1 have "flushPass P (flushBatchedUpdates n P) s = Return s1" by simp
      from ih Suc.prems(1) this show ?thesis by (rule flushPass_duties)
    next
      case False
      with 1 Suc.prems(1) show ?thesis by simp
    qed
    with 2 have "drainDuties every k D s2"
      by (cases "asapEnqueued s1") (auto intro: asapPass_duties)
    then show ?thesis using 3 by (rule ih)
  qed
qed

lemma drain_duties:
  assumes "injected s" "isBatchingUpdates s" "every \<longrightarrow> tidy s"
    and r: "andThen (runScript P us s) (flushBatchedUpdates n P) = Return s'"
  shows "duties every (scheduled s) (eventsSince s s') = {}"
    and "every \<longrightarrow> tidy s'"
proof -
  let ?k = "length (trace s)"
  have s: "drainDuties every ?k (scheduled s) s"
    using assms(1-3) by (simp add: drainDuties_def)
  from andThen_Return [OF r] obtain s1 where 1: "runScript P us s = Return s1"
    and 2: "flushBatchedUpdates n P s1 = Return s'"
    by blast
  from post_Return [OF drainDuties_script [OF s] 1] have "drainDuties every ?k (scheduled s) s1" .
  from flush_duties [OF this 2] have d: "drainDuties every ?k (scheduled s) s'" .
  from flush_quiet [OF 2] have "scheduled s' = {}" by (simp add: scheduled_def)
  with d show "duties every (scheduled s) (eventsSince s s') = {}"
    by (simp add: drainDuties_def eventsSince_def)
  from d show "every \<longrightarrow> tidy s'" by (simp add: drainDuties_def)
qed




subsection \<open>The callbacks of an instance\<close>

lemma callbacksOf_simps [simp]:
  "callbacksOf (logEvent ev s) = callbacksOf s"
  "callbacksOf (setBatchNumber c b s) = callbacksOf s"
  "callbacksOf (setPendingCallbacks c x s) c' =
     (if c' = c then map (\<lambda>cb. (cb, publicInstance (instances s c))) (orEmpty x)
      else callbacksOf s c')"
  "callbacksOf (s\<lparr>dirtyComponents := d\<rparr>) = callbacksOf s"
  "callbacksOf (s\<lparr>updateBatchNumber := n\<rparr>) = callbacksOf s"
  "callbacksOf (s\<lparr>asapCallbackQueue := q\<rparr>) = callbacksOf s"
  "callbacksOf (s\<lparr>asapEnqueued := a\<rparr>) = callbacksOf s"
  "callbacksOf (s\<lparr>flushTransactionPool := p\<rparr>) = callbacksOf s"
  "callbacksOf (s\<lparr>callbackQueuePool := p\<rparr>) = callbacksOf s"
  "callbacksOf (s\<lparr>reconcileTransactionPool := p\<rparr>) = callbacksOf s"
  by (simp_all add: callbacksOf_def fun_eq_iff logEvent_def setBatchNumber_def
      setPendingCallbacks_def)

lemma publicInstance_simps [simp]:
  "publicInstance (instances (logEvent ev s) c) = publicInstance (instances s c)"
  by (simp add: logEvent_def)

lemma callbacksOf_add:
  "set (callbacksOf s c') \<subseteq>
   set (callbacksOf (setPendingCallbacks c (Some (orEmpty (pendingCallbacks (instances s c)) @ [cb])) s) c')"
  by (auto simp: callbacksOf_def setPendingCallbacks_def orEmpty_def)

lemma keeps_userCall:
  assumes "keeps pub f s"
  shows "post (keeps pub f) (keeps pub f) (runUserCall P u s)"
proof (cases u)
  case (AddPendingCallback c cb)
  let ?s' = "setPendingCallbacks c (Some (orEmpty (pendingCallbacks (instances s c)) @ [cb])) s"
  from assms have "\<And>c'. set (f c') \<subseteq> set (callbacksOf ?s' c')"
    unfolding keeps_def using callbacksOf_add [of s _ c cb] by blast
  with assms show ?thesis
    unfolding AddPendingCallback runUserCall_def keeps_def by simp
qed (use assms in \<open>auto simp: keeps_def runUserCall_def enqueueUpdate_batching asap_batching\<close>)

lemma keeps_script:
  "keeps pub f s \<Longrightarrow> post (keeps pub f) (keeps pub f) (runScript P us s)"
  by (rule runScript_post [OF keeps_userCall])

lemma keeps_performUpdate:
  assumes "keeps pub f s"
  shows "post (keeps pub f) (\<lambda>s. True) (performUpdateIfNecessary P c b s)"
proof (rule performUpdateIfNecessary_post)
  show "keeps pub f (logEvent (Performed c b) s)"
    using assms by (simp add: keeps_def)
next
  let ?s1 = "logEvent (Delegated c (updateBatchNumber s)) (logEvent (Performed c b) s)"
  have "keeps pub f (setBatchNumber c None ?s1)"
    using assms by (simp add: keeps_def)
  then show "post (keeps pub f) (\<lambda>s. True) (runScript P (nodeKind P c ?s1) (setBatchNumber c None ?s1))"
    by (rule post_mono [OF keeps_script]) simp_all
qed

lemma collected_turn:
  assumes "collected T (c # cs) w"
  shows "post (collected T cs) (\<lambda>w. True) (reconcileTurn P c w)"
proof -
  obtain s t where w: "w = (s, t)" by (cases w)
  let ?s1 = "setPendingCallbacks c None s"
  from assms obtain items where i: "injected s" "isBatchingUpdates s"
    and q: "callbackQueue t = enqueueAll items (CallbackQueue_new ())"
    and T: "\<And>x. x \<in> T \<Longrightarrow> x \<in> set items \<or> (\<exists>c'\<in>set (c # cs). x \<in> set (callbacksOf s c'))"
    unfolding collected_def w by auto
  have k: "keeps (\<lambda>c. publicInstance (instances s c)) (callbacksOf ?s1) ?s1"
    using i by (simp add: keeps_def)
  have "post (\<lambda>s2. collected T cs (requeueCallbacks (pendingCallbacks (instances s c)) c (s2, t)))
             (\<lambda>s. True)
             (performUpdateIfNecessary P c (updateBatchNumber s) ?s1)"
  proof (rule post_mono [OF keeps_performUpdate [OF k]])
    fix s2
    assume k2: "keeps (\<lambda>c. publicInstance (instances s c)) (callbacksOf ?s1) s2"
    let ?w = "requeueCallbacks (pendingCallbacks (instances s c)) c (s2, t)"
    from k2 have p: "publicInstance (instances s2 c) = publicInstance (instances s c)"
      and sub: "\<And>c'. set (callbacksOf ?s1 c') \<subseteq> set (callbacksOf s2 c')"
      and i2: "injected s2" "isBatchingUpdates s2"
      by (simp_all add: keeps_def)
    have q': "callbackQueue (snd ?w) = enqueueAll (items @ callbacksOf s c) (CallbackQueue_new ())"
      by (simp add: q p callbacksOf_def enqueueAll_def)
    have "x \<in> set (items @ callbacksOf s c) \<or> (\<exists>c'\<in>set cs. x \<in> set (callbacksOf s2 c'))"
      if "x \<in> T" for x
    proof -
      from T [OF that] consider "x \<in> set items" | "x \<in> set (callbacksOf s c)"
        | c' where "c' \<in> set cs" "c' \<noteq> c" "x \<in> set (callbacksOf s c')"
        by auto
      then show ?thesis
      proof cases
        case 3
        then have "x \<in> set (callbacksOf ?s1 c')" by simp
        with sub have "x \<in> set (callbacksOf s2 c')" by blast
        with 3 show ?thesis by blast
      qed simp_all
    qed
    with q' i2 show "collected T cs ?w"
      unfolding collected_def by (simp only: requeueCallbacks_simps) blast
  qed simp
  then show ?thesis
    by (cases "performUpdateIfNecessary P c (updateBatchNumber s) ?s1")
       (simp_all add: w reconcileTurn_def)
qed

lemma runBatchedUpdates_collects:
  assumes i: "injected s" "isBatchingUpdates s"
    and q: "callbackQueue t = CallbackQueue_new ()"
    and r: "runBatchedUpdates P (s, t) = Return (s2, t2)"
  shows "\<exists>items. callbackQueue t2 = enqueueAll items (CallbackQueue_new ()) \<and>
           (\<forall>c\<in>set (dirtyComponents s). set (callbacksOf s c) \<subseteq> set items)"
proof -
  let ?ds = "sort_key (mountOrderOf s) (dirtyComponents s)"
  let ?s0 = "s\<lparr>dirtyComponents := ?ds, updateBatchNumber := updateBatchNumber s + 1\<rparr>"
  let ?T = "\<Union>c\<in>set (dirtyComponents s). set (callbacksOf s c)"
  from r have eq: "reconcileInOrder P ?ds (?s0, t) = Return (s2, t2)"
    unfolding runBatchedUpdates_inOrder [OF i] by (simp split: if_splits)
  have "enqueueAll [] (CallbackQueue_new () :: (nat, nat, unit) CallbackQueue) = CallbackQueue_new ()"
    by (simp add: enqueueAll_def)
  then have "collected ?T ?ds (?s0, t)"
    unfolding collected_def using i q by (auto intro!: exI [of _ "[]"])
  then have "post (collected ?T []) (\<lambda>w. True) (reconcileInOrder P ?ds (?s0, t))"
    by (intro reconcileInOrder_rule [where Inv = "collected ?T"] collected_turn)
  with eq have "collected ?T [] (s2, t2)" by simp
  then show ?thesis unfolding collected_def by auto
qed

subsection \<open>Events that stay in the trace\<close>

lemma noted_userCall:
  "noted k E s \<Longrightarrow> post (noted k E) (noted k E) (runUserCall P u s)"
  by (cases u)
     (auto simp: noted_def runUserCall_def enqueueUpdate_batching asap_batching)

lemma noted_stable: "drainStable P (noted k E)"
  unfolding drainStable_def passStable_def
  by (auto simp: noted_userCall) (auto simp: noted_def)

lemma noted_script:
  "noted k E s \<Longrightarrow> post (noted k E) (noted k E) (runScript P us s)"
  by (rule runScript_post [OF noted_userCall])

lemma callCallback_Return:
  "callCallback P mk cb ctx a (q, s) = Return w \<longleftrightarrow>
     (\<exists>s'. runScript P (callbackCode P cb ctx (logEvent (mk cb ctx) s)) (logEvent (mk cb ctx) s)
             = Return s' \<and> w = (q, s'))"
  by (cases "runScript P (callbackCode P cb ctx (logEvent (mk cb ctx) s)) (logEvent (mk cb ctx) s)")
     (auto simp: callCallback_def)

lemma notifications_simps [simp]:
  "notifications [] = {}"
  "notifications ((cb, ctx) # items) = insert (Notified cb (Some ctx)) (notifications items)"
  "notifications (xs @ ys) = notifications xs \<union> notifications ys"
  by (auto simp: notifications_def)

lemma notifyFifo_noted:
  assumes "noted k E s"
    and "notifyFifo (callCallback P Notified) a items ((q, s), log) = Return ((q', s'), log')"
  shows "noted k (E \<union> notifications items) s'"
  using assms
proof (induction items arbitrary: q s log E)
  case Nil
  then show ?case by simp
next
  case (Cons x items)
  obtain cb ctx where x: "x = (cb, ctx)" by (cases x)
  let ?s1 = "logEvent (Notified cb (Some ctx)) s"
  from Cons.prems(1) have 1: "noted k (insert (Notified cb (Some ctx)) E) ?s1"
    by (auto simp: noted_def)
  from Cons.prems(2) obtain s2 where
    2: "runScript P (callbackCode P cb (Some ctx) ?s1) ?s1 = Return s2"
    and 3: "notifyFifo (callCallback P Notified) a items ((q, s2), log @ [(cb, Some ctx, a)]) =
            Return ((q', s'), log')"
    by (auto simp: x callCallback_Return split: outcome.splits)
  from post_Return [OF noted_script [OF 1] 2]
  have "noted k (insert (Notified cb (Some ctx)) E) s2" .
  from Cons.IH [OF this 3] show ?case by (simp add: x Un_commute insert_commute)
qed

lemma unitQueue_reset [simp]: "reset (q :: (nat, nat, unit) CallbackQueue) = CallbackQueue_new ()"
  by (simp add: reset_def CallbackQueue_new_def)

lemma notifyQueue_noted:
  assumes "noted k E s"
    and "notifyQueue P Notified (enqueueAll items (CallbackQueue_new ())) s = Return (q', s')"
  shows "noted k (E \<union> notifications items) s'"
proof -
  have e: "callbacks (CallbackQueue_new () :: (nat, nat, unit) CallbackQueue) = None"
    "contexts (CallbackQueue_new () :: (nat, nat, unit) CallbackQueue) = None"
    by (simp_all add: CallbackQueue_new_def)
  from assms(2) obtain log' where
    "notifyAll (callCallback P Notified) ((enqueueAll items (CallbackQueue_new ()), s), []) =
       Return ((q', s'), log')"
    by (auto simp: notifyQueue_def split: outcome.splits)
  then have "notifyFifo (callCallback P Notified) () items ((CallbackQueue_new (), s), []) =
       Return ((q', s'), log')"
    by (simp add: notifyAll_enqueued [OF e])
  with assms(1) show ?thesis by (rule notifyFifo_noted)
qed

subsection \<open>The asap queue\<close>

lemma checkpoint_enqueue [simp]: "checkpoint (enqueue cb ctx q) \<noteq> 0"
  by (simp add: checkpoint_def enqueue_def)

lemma asapReady_userCall:
  "asapReady s \<Longrightarrow> post asapReady asapReady (runUserCall P u s)"
  by (cases u)
     (auto simp: asapReady_def runUserCall_def enqueueUpdate_batching asap_batching)

lemma asapReady_stable: "drainStable P asapReady"
  unfolding drainStable_def passStable_def
  by (auto simp: asapReady_userCall)
     (auto simp: asapReady_def checkpoint_def CallbackQueue_new_def)

lemma asapReady_flush:
  assumes "asapReady s" "flushBatchedUpdates n P s = Return s'"
  shows "asapReady s'"
  using stable_flush [OF asapReady_stable assms(1), where P = P and n = n] assms(2) by simp

subsection \<open>The callbacks of the instances of a pass are notified\<close>

lemma runBatchedUpdates_length:
  assumes i: "injected s" "isBatchingUpdates s"
    and r: "runBatchedUpdates P (s, t) = Return (s2, t2)"
  shows "dirtyComponentsLength t = Some (length (dirtyComponents s))"
    and "dirtyComponentsLength t2 = Some (length (dirtyComponents s))"
proof -
  let ?ds = "sort_key (mountOrderOf s) (dirtyComponents s)"
  let ?s0 = "s\<lparr>dirtyComponents := ?ds, updateBatchNumber := updateBatchNumber s + 1\<rparr>"
  from r show l: "dirtyComponentsLength t = Some (length (dirtyComponents s))"
    unfolding runBatchedUpdates_inOrder [OF i] by (simp split: if_splits)
  have "post (\<lambda>w. dirtyComponentsLength (snd w) = Some (length (dirtyComponents s))) (\<lambda>w. True)
          (reconcileInOrder P ?ds (?s0, t))"
  proof (rule reconcileInOrder_rule
      [where Inv = "\<lambda>cs w. dirtyComponentsLength (snd w) = Some (length (dirtyComponents s))"])
    show "dirtyComponentsLength (snd (?s0, t)) = Some (length (dirtyComponents s))"
      using l by simp
  next
    fix c :: nat and cs :: "nat list" and w :: flushState
    assume a: "dirtyComponentsLength (snd w) = Some (length (dirtyComponents s))"
    obtain x y where w: "w = (x, y)" by (cases w)
    show "post (\<lambda>w. dirtyComponentsLength (snd w) = Some (length (dirtyComponents s))) (\<lambda>w. True)
            (reconcileTurn P c w)"
      using a unfolding w reconcileTurn_def
      by (cases "performUpdateIfNecessary P c (updateBatchNumber x) (setPendingCallbacks c None x)")
         simp_all
  qed
  with r l show "dirtyComponentsLength t2 = Some (length (dirtyComponents s))"
    unfolding runBatchedUpdates_inOrder [OF i] by simp
qed

lemma script_frame:
  assumes i: "injected s" "isBatchingUpdates s" and r: "runScript P us s = Return s1"
  shows "take (length (dirtyComponents s)) (dirtyComponents s1) = dirtyComponents s"
    and "mountOrderOf s1 = mountOrderOf s"
    and "\<And>c. set (callbacksOf s c) \<subseteq> set (callbacksOf s1 c)"
    and "injected s1" and "isBatchingUpdates s1"
proof -
  have "passFrame (updateBatchNumber s) (mountOrderOf s) (dirtyComponents s) (performed (trace s)) s"
    using i by (simp add: passFrame_def)
  from post_Return [OF passFrame_script [OF this] r]
  show "take (length (dirtyComponents s)) (dirtyComponents s1) = dirtyComponents s"
    and "mountOrderOf s1 = mountOrderOf s" and "injected s1" and "isBatchingUpdates s1"
    by (simp_all add: passFrame_def)
  have "keeps (\<lambda>c. publicInstance (instances s c)) (callbacksOf s) s"
    using i by (simp add: keeps_def)
  from post_Return [OF keeps_script [OF this] r]
  show "\<And>c. set (callbacksOf s c) \<subseteq> set (callbacksOf s1 c)"
    by (simp add: keeps_def)
qed

lemma notifications_mono: "set xs \<subseteq> set ys \<Longrightarrow> notifications xs \<subseteq> notifications ys"
  by (auto simp: notifications_def)

lemma noted_mono: "noted k E s \<Longrightarrow> E' \<subseteq> E \<Longrightarrow> noted k E' s"
  by (auto simp: noted_def)

lemma noted_update [simp]:
  "noted k E (s\<lparr>dirtyComponents := d\<rparr>) = noted k E s"
  "noted k E (s\<lparr>flushTransactionPool := p\<rparr>) = noted k E s"
  "noted k E (s\<lparr>callbackQueuePool := p\<rparr>) = noted k E s"
  "noted k E (s\<lparr>reconcileTransactionPool := p\<rparr>) = noted k E s"
  by (simp_all add: noted_def)

text \<open>
  What a \<^verbatim>\<open>perform\<close> of the flush transaction that returns has done, with the queue of
  callbacks it collected.
\<close>

lemma flushPerform_pass:
  assumes i: "injected s" "isBatchingUpdates s"
    and r: "flushPerform P flush (s, t) = Return (s', t')"
  shows "\<exists>s1 s2 t2 s3 s4 items q.
     runScript P (hostInitialize P s) s = Return s1 \<and>
     dirtyComponents s1 = dirtyComponents s \<and> mountOrderOf s1 = mountOrderOf s \<and>
     injected s1 \<and> isBatchingUpdates s1 \<and>
     runBatchedUpdates P
       (s1, t\<lparr>dirtyComponentsLength := Some (length (dirtyComponents s)),
               callbackQueue := CallbackQueue_new ()\<rparr>) = Return (s2, t2) \<and>
     runScript P (hostClose P s2) s2 = Return s3 \<and>
     (if length (dirtyComponents s3) \<noteq> length (dirtyComponents s)
      then flush (s3\<lparr>dirtyComponents :=
                        drop (length (dirtyComponents s)) (dirtyComponents s3)\<rparr>) = Return s4
      else s4 = s3\<lparr>dirtyComponents := []\<rparr>) \<and>
     (\<forall>c\<in>set (dirtyComponents s). set (callbacksOf s c) \<subseteq> set items) \<and>
     notifyQueue P Notified (enqueueAll items (CallbackQueue_new ())) s4 = Return (q, s')"
proof -
  let ?t1 = "t\<lparr>dirtyComponentsLength := Some (length (dirtyComponents s)),
               callbackQueue := CallbackQueue_new ()\<rparr>"
  from flushPerform_Return [OF r] obtain s1 s2 t2 s3 s4 q where
    1: "runScript P (hostInitialize P s) s = Return s1"
    and 2: "runBatchedUpdates P (s1, ?t1) = Return (s2, t2)"
    and 3: "runScript P (hostClose P s2) s2 = Return s3"
    and 4: "if dirtyComponentsLength t2 \<noteq> Some (length (dirtyComponents s3))
      then flush (s3\<lparr>dirtyComponents :=
                        spliceFront (dirtyComponentsLength t2) (dirtyComponents s3)\<rparr>) = Return s4
      else s4 = s3\<lparr>dirtyComponents := []\<rparr>"
    and 5: "notifyQueue P Notified (callbackQueue t2) s4 = Return (q, s')"
    by (auto simp only: unitQueue_reset)
  note f1 = script_frame [OF i 1]
  from runBatchedUpdates_length [OF f1(4,5) 2]
  have l: "length (dirtyComponents s) = length (dirtyComponents s1)"
    and l2: "dirtyComponentsLength t2 = Some (length (dirtyComponents s1))"
    by simp_all
  from f1(1) l have d1: "dirtyComponents s1 = dirtyComponents s" by simp
  from runBatchedUpdates_collects [OF f1(4,5) _ 2] obtain items where
    q2: "callbackQueue t2 = enqueueAll items (CallbackQueue_new ())"
    and it: "\<forall>c\<in>set (dirtyComponents s1). set (callbacksOf s1 c) \<subseteq> set items"
    by auto
  from it f1(3) have it2: "\<forall>c\<in>set (dirtyComponents s). set (callbacksOf s c) \<subseteq> set items"
    unfolding d1 by blast
  from 4 have n4: "if length (dirtyComponents s3) \<noteq> length (dirtyComponents s)
      then flush (s3\<lparr>dirtyComponents :=
                        drop (length (dirtyComponents s)) (dirtyComponents s3)\<rparr>) = Return s4
      else s4 = s3\<lparr>dirtyComponents := []\<rparr>"
    unfolding l2 l [symmetric] by (auto simp: spliceFront_def split: if_splits)
  from 1 d1 f1(2,4,5) 2 3 n4 it2 5 [unfolded q2] show ?thesis by blast
qed

lemma flushPerform_notifies:
  assumes f: "\<And>E s s'. noted k E s \<Longrightarrow> flush s = Return s' \<Longrightarrow> noted k E s'"
    and s: "noted k E s" and r: "flushPerform P flush (s, t) = Return (s', t')"
  shows "noted k (E \<union> notifications (concat (map (callbacksOf s) (dirtyComponents s)))) s'"
proof -
  from s have i: "injected s" "isBatchingUpdates s" by (simp_all add: noted_def)
  from flushPerform_pass [OF i r] obtain s1 s2 t2 s3 s4 items q where
    1: "runScript P (hostInitialize P s) s = Return s1"
    and 2: "runBatchedUpdates P
       (s1, t\<lparr>dirtyComponentsLength := Some (length (dirtyComponents s)),
               callbackQueue := CallbackQueue_new ()\<rparr>) = Return (s2, t2)"
    and 3: "runScript P (hostClose P s2) s2 = Return s3"
    and 4: "if length (dirtyComponents s3) \<noteq> length (dirtyComponents s)
      then flush (s3\<lparr>dirtyComponents :=
                        drop (length (dirtyComponents s)) (dirtyComponents s3)\<rparr>) = Return s4
      else s4 = s3\<lparr>dirtyComponents := []\<rparr>"
    and it: "\<forall>c\<in>set (dirtyComponents s). set (callbacksOf s c) \<subseteq> set items"
    and 5: "notifyQueue P Notified (enqueueAll items (CallbackQueue_new ())) s4 = Return (q, s')"
    by blast
  from noted_stable [of P k E] have ps: "passStable P (noted k E)" by (simp add: drainStable_def)
  from post_Return [OF noted_script [OF s] 1] have "noted k E s1" .
  from stable_runBatchedUpdates [OF ps this, where t = "t\<lparr>dirtyComponentsLength := Some (length (dirtyComponents s)),
               callbackQueue := CallbackQueue_new ()\<rparr>"] 2
  have "noted k E s2" by simp
  from post_Return [OF noted_script [OF this] 3] have n3: "noted k E s3" .
  have "noted k E s4"
  proof (cases "length (dirtyComponents s3) \<noteq> length (dirtyComponents s)")
    case True
    with 4 have r4: "flush (s3\<lparr>dirtyComponents :=
                        drop (length (dirtyComponents s)) (dirtyComponents s3)\<rparr>) = Return s4"
      by simp
    from n3 show ?thesis by (intro f [OF _ r4]) simp
  next
    case False
    with 4 n3 show ?thesis by simp
  qed
  from notifyQueue_noted [OF this 5] have n: "noted k (E \<union> notifications items) s'" .
  from it have "set (concat (map (callbacksOf s) (dirtyComponents s))) \<subseteq> set items" by auto
  then have "notifications (concat (map (callbacksOf s) (dirtyComponents s))) \<subseteq> notifications items"
    by (rule notifications_mono)
  with n show ?thesis by (elim noted_mono) blast
qed

lemma flush_notifies:
  assumes s: "noted k E s" and r: "flushBatchedUpdates n P s = Return s'"
  shows "noted k (E \<union> notifications (concat (map (callbacksOf s) (dirtyComponents s)))) s'"
proof (cases "dirtyComponents s = []")
  case True
  from stable_flush [OF noted_stable s, where P = P and n = n] r have "noted k E s'" by simp
  with True show ?thesis by simp
next
  case False
  let ?N = "notifications (concat (map (callbacksOf s) (dirtyComponents s)))"
  from r False obtain m where n: "n = Suc m" by (cases n) simp_all
  from flush_Suc_Return [OF r [unfolded n]] False obtain s1 s2 where
    1: "flushPass P (flushBatchedUpdates m P) s = Return s1"
    and 2: "(if asapEnqueued s1 then asapPass P s1 else Return s1) = Return s2"
    and 3: "flushBatchedUpdates m P s2 = Return s'"
    by auto
  obtain s0 t0 where g: "getPooledFlushTransaction s = (s0, t0)"
    by (cases "getPooledFlushTransaction s")
  from 1 g obtain s1' t1 where p: "flushPerform P (flushBatchedUpdates m P) (s0, t0) = Return (s1', t1)"
    and s1: "s1 = releaseFlushTransaction (s1', t1)"
    by (cases "flushPerform P (flushBatchedUpdates m P) (s0, t0)") (auto simp: flushPass_def)
  from g have s0: "s0 = s\<lparr>flushTransactionPool := getPooled (flushTransactionPool s),
        callbackQueuePool := getPooled (callbackQueuePool s),
        reconcileTransactionPool := getPooled (reconcileTransactionPool s)\<rparr>"
    by (simp add: getPooledFlushTransaction_def)
  from s have n0: "noted k E s0" unfolding s0 by simp
  have c0: "callbacksOf s0 = callbacksOf s" "dirtyComponents s0 = dirtyComponents s"
    unfolding s0 by simp_all
  have f: "\<And>E s s'. noted k E s \<Longrightarrow> flushBatchedUpdates m P s = Return s' \<Longrightarrow> noted k E s'"
    using stable_flush [OF noted_stable, where P = P and n = m] by (auto dest: post_Return)
  from flushPerform_notifies [OF f n0 p] have "noted k (E \<union> ?N) s1'"
    unfolding c0 by simp
  then have "noted k (E \<union> ?N) s1"
    unfolding s1 releaseFlushTransaction_def by simp
  with 2 stable_asapPass [OF noted_stable [of P k "E \<union> ?N"], where s = s1]
  have "noted k (E \<union> ?N) s2"
    by (cases "asapEnqueued s1") auto
  from f [OF this 3] show ?thesis .
qed

subsection \<open>A cascade is resolved before the drain returns\<close>

lemma asapReady_update [simp]:
  "asapReady (s\<lparr>dirtyComponents := d\<rparr>) = asapReady s"
  by (simp add: asapReady_def)

lemma asapReady_script:
  "asapReady s \<Longrightarrow> post asapReady asapReady (runScript P us s)"
  by (rule runScript_post [OF asapReady_userCall])

lemma flushPerform_cascade:
  assumes s: "settled s" and r: "flushPerform P (flushBatchedUpdates n P) (s, t) = Return (s', t')"
  shows "\<exists>s1 s2 t2 s3 s4 items q.
     runScript P (hostInitialize P s) s = Return s1 \<and>
     dirtyComponents s1 = dirtyComponents s \<and>
     runBatchedUpdates P
       (s1, t\<lparr>dirtyComponentsLength := Some (length (dirtyComponents s)),
               callbackQueue := CallbackQueue_new ()\<rparr>) = Return (s2, t2) \<and>
     runScript P (hostClose P s2) s2 = Return s3 \<and>
     take (length (dirtyComponents s)) (dirtyComponents s3) =
       sort_key (mountOrderOf s) (dirtyComponents s) \<and>
     (if length (dirtyComponents s3) \<noteq> length (dirtyComponents s)
      then settled (s3\<lparr>dirtyComponents :=
                         drop (length (dirtyComponents s)) (dirtyComponents s3)\<rparr>) \<and>
           flushBatchedUpdates n P
             (s3\<lparr>dirtyComponents :=
                    drop (length (dirtyComponents s)) (dirtyComponents s3)\<rparr>) = Return s4
      else s4 = s3\<lparr>dirtyComponents := []\<rparr>) \<and>
     dirtyComponents s4 = [] \<and>
     duties True (scheduled s) (eventsSince s s4) = {} \<and>
     (\<forall>c\<in>set (dirtyComponents s). set (callbacksOf s c) \<subseteq> set items) \<and>
     notifyQueue P Notified (enqueueAll items (CallbackQueue_new ())) s4 = Return (q, s')"
proof -
  let ?k = "length (trace s)"
  let ?L = "length (dirtyComponents s)"
  let ?ds = "sort_key (mountOrderOf s) (dirtyComponents s)"
  from s have i: "injected s" "isBatchingUpdates s" and a: "asapReady s"
    and d: "drainDuties True ?k (scheduled s) s"
    by (simp_all add: settled_def asapReady_def drainDuties_def)
  from flushPerform_pass [OF i r] obtain s1 s2 t2 s3 s4 items q where
    1: "runScript P (hostInitialize P s) s = Return s1"
    and d1: "dirtyComponents s1 = dirtyComponents s" and m1: "mountOrderOf s1 = mountOrderOf s"
    and 2: "runBatchedUpdates P
       (s1, t\<lparr>dirtyComponentsLength := Some (length (dirtyComponents s)),
               callbackQueue := CallbackQueue_new ()\<rparr>) = Return (s2, t2)"
    and 3: "runScript P (hostClose P s2) s2 = Return s3"
    and 4: "if length (dirtyComponents s3) \<noteq> ?L
      then flushBatchedUpdates n P (s3\<lparr>dirtyComponents := drop ?L (dirtyComponents s3)\<rparr>) = Return s4
      else s4 = s3\<lparr>dirtyComponents := []\<rparr>"
    and it: "\<forall>c\<in>set (dirtyComponents s). set (callbacksOf s c) \<subseteq> set items"
    and 5: "notifyQueue P Notified (enqueueAll items (CallbackQueue_new ())) s4 = Return (q, s')"
    by blast
  let ?S = "s3\<lparr>dirtyComponents := drop ?L (dirtyComponents s3)\<rparr>"
  from asapReady_stable [of P] have ps: "passStable P asapReady" by (simp add: drainStable_def)
  from post_Return [OF asapReady_script [OF a] 1] have "asapReady s1" .
  from stable_runBatchedUpdates [OF ps this,
      where t = "t\<lparr>dirtyComponentsLength := Some (length (dirtyComponents s)),
               callbackQueue := CallbackQueue_new ()\<rparr>"] 2
  have "asapReady s2" by simp
  from post_Return [OF asapReady_script [OF this] 3] have a3: "asapReady s3" .
  from post_Return [OF drainDuties_script [OF d] 1] have "drainDuties True ?k (scheduled s) s1" .
  from runBatchedUpdates_duties [OF this 2]
  have "passDuties True ?k (scheduled s) ?ds [] s2" unfolding d1 m1 .
  from post_Return [OF passDuties_script [OF this] 3]
  have p3: "passDuties True ?k (scheduled s) ?ds [] s3" .
  then have tk: "take ?L (dirtyComponents s3) = ?ds" by (simp add: passDuties_def)
  from passDuties_done [OF p3] have dS: "drainDuties True ?k (scheduled s) ?S" by simp
  with a3 have sS: "settled ?S" by (simp add: settled_def drainDuties_def)
  have d4: "drainDuties True ?k (scheduled s) s4"
  proof (cases "length (dirtyComponents s3) \<noteq> ?L")
    case True
    with 4 have "flushBatchedUpdates n P ?S = Return s4" by simp
    from flush_duties [OF dS this] show ?thesis .
  next
    case False
    with 4 dS show ?thesis by simp
  qed
  have e4: "dirtyComponents s4 = []"
  proof (cases "length (dirtyComponents s3) \<noteq> ?L")
    case True
    with 4 have "flushBatchedUpdates n P ?S = Return s4" by simp
    from flush_quiet [OF this] show ?thesis by simp
  next
    case False
    with 4 show ?thesis by simp
  qed
  then have "scheduled s4 = {}" by (simp add: scheduled_def)
  with d4 have du: "duties True (scheduled s) (eventsSince s s4) = {}"
    by (simp add: drainDuties_def eventsSince_def)
  from 4 sS have c4: "if length (dirtyComponents s3) \<noteq> ?L
      then settled ?S \<and> flushBatchedUpdates n P ?S = Return s4
      else s4 = s3\<lparr>dirtyComponents := []\<rparr>"
    by (simp split: if_splits)
  from 1 d1 2 3 tk c4 e4 du it 5 show ?thesis by blast
qed

lemma flush_settled:
  assumes s: "settled s" and r: "flushBatchedUpdates n P s = Return s'"
  shows "dirtyComponents s' = [] \<and> \<not> asapEnqueued s' \<and> checkpoint (asapCallbackQueue s') = 0 \<and>
     duties True (scheduled s) (eventsSince s s') = {} \<and>
     notifications (concat (map (callbacksOf s) (dirtyComponents s))) \<subseteq> set (eventsSince s s') \<and>
     settled s'"
proof -
  from s have i: "injected s" "isBatchingUpdates s" and a: "asapReady s" and t: "tidy s"
    by (simp_all add: settled_def asapReady_def)
  from r have r': "andThen (runScript P [] s) (flushBatchedUpdates n P) = Return s'"
    by simp
  from flush_quiet [OF r] have q: "dirtyComponents s' = []" "\<not> asapEnqueued s'" by simp_all
  from asapReady_flush [OF a r] have a': "asapReady s'" .
  with q have c: "checkpoint (asapCallbackQueue s') = 0" by (simp add: asapReady_def)
  from drain_duties [OF i _ r', of True] t
  have du: "duties True (scheduled s) (eventsSince s s') = {}" and t': "tidy s'"
    by simp_all
  have "noted (length (trace s)) {} s" using i by (simp add: noted_def)
  from flush_notifies [OF this r]
  have n: "notifications (concat (map (callbacksOf s) (dirtyComponents s)))
      \<subseteq> set (eventsSince s s')"
    by (simp add: noted_def eventsSince_def)
  from q c du n a' t' show ?thesis by (simp add: settled_def)
qed



lemma cascadeStart_simps [simp]:
  "dirtyComponents cascadeStart = [1]" "trace cascadeStart = []"
  "callbacksOf cascadeStart 1 = [(4, 101)]" "callbacksOf cascadeStart (Suc 0) = [(4, 101)]"
  "hostInitialize cascadeProgram = (\<lambda>s. [])" "hostClose cascadeProgram = (\<lambda>s. [])"
  by (simp_all add: cascadeStart_def batchingState_def callbacksOf_def freshInstance_def
      orEmpty_def cascadeProgram_def quietProgram_def)


end
